theory Spec2Isabelle
  imports Main "HOL-Library.Word"
begin

chapter \<open>Definitions\<close>

section \<open>SPSC ring buffers (src/common/containers/ring_buffer.hpp)\<close>

text \<open>
  \<^verbatim>\<open>size_t\<close> is a 64-bit unsigned integer: \<open>+\<close> wraps around. The operator
  \<^verbatim>\<open>%\<close> with a zero divisor and \<^verbatim>\<open>std::vector::operator[]\<close> past the end
  are undefined behaviour in C++; the model makes each of them an error value.
  Memory orders of the atomic loads and stores do not change what a sequential
  execution computes, so a load is a field read and a store is a field update.
  The constructor's \<^verbatim>\<open>reserve\<close> can throw: \<^verbatim>\<open>std::length_error\<close> above the
  vector's \<^verbatim>\<open>max_size()\<close>, \<^verbatim>\<open>std::bad_alloc\<close> when the allocator refuses. In a
  constructed buffer \<^verbatim>\<open>emplace_back\<close> stays within the reserved storage.
  Member names are written without their trailing underscore, which Isabelle
  does not accept in a constant's name.
\<close>

type_synonym size_t = "64 word"

datatype error = DivisionByZero | OutOfRange | LengthError | BadAlloc

text \<open>The value of \<^verbatim>\<open>a % b\<close> on \<^verbatim>\<open>size_t\<close>.\<close>

definition umod :: "size_t \<Rightarrow> size_t \<Rightarrow> error + size_t" where
  "umod a b = (if b = 0 then Inl DivisionByZero else Inr (a mod b))"

record 'a RingBuffer =
  data :: "'a list"
  capacity :: size_t
  readIdx :: size_t
  writeIdx :: size_t

text \<open>
  The object the constructor leaves when it returns: the capacity it was given,
  whatever it is, an empty vector, and both indices at 0.
\<close>

definition RingBuffer_new :: "size_t \<Rightarrow> 'a RingBuffer" where
  "RingBuffer_new cap =
     \<lparr>data = [], capacity = cap, readIdx = 0, writeIdx = 0\<rparr>"

text \<open>
  \<^verbatim>\<open>data_.reserve(n)\<close> on the empty vector, the one statement of the constructor's
  body. It throws \<^verbatim>\<open>std::length_error\<close> when \<open>n\<close> is above \<^verbatim>\<open>max_size()\<close>,
  which depends on the element type and the library (on the 64-bit platforms
  \<^verbatim>\<open>PTRDIFF_MAX / sizeof(T)\<close>, below the largest \<^verbatim>\<open>size_t\<close>) and is a parameter
  here. Otherwise it allocates storage when \<open>n\<close> is above the current capacity 0;
  whether the allocator grants it is the second parameter.
\<close>

definition vector_reserve :: "nat \<Rightarrow> bool \<Rightarrow> size_t \<Rightarrow> error + unit" where
  "vector_reserve max_size alloc_ok n =
     (if max_size < unat n then Inl LengthError
      else if n \<noteq> 0 \<and> \<not> alloc_ok then Inl BadAlloc
      else Inr ())"

text \<open>
  The constructor: the member initialisers, then \<^verbatim>\<open>reserve\<close>. It compares the
  capacity with nothing itself.
\<close>

definition RingBuffer_ctor :: "nat \<Rightarrow> bool \<Rightarrow> size_t \<Rightarrow> error + 'a RingBuffer" where
  "RingBuffer_ctor max_size alloc_ok cap =
     (case vector_reserve max_size alloc_ok cap of
        Inl e \<Rightarrow> Inl e
      | Inr u \<Rightarrow> Inr (RingBuffer_new cap))"

text \<open>
  The lazy construction of a slot, the same statement in both classes:
  \<^verbatim>\<open>emplace_back\<close> when the index is not below the vector's size (the value
  then lands at the end of the vector), assignment to the slot otherwise.
\<close>

definition store_slot :: "size_t \<Rightarrow> 'a \<Rightarrow> 'a list \<Rightarrow> 'a list" where
  "store_slot idx val d =
     (if length d \<le> unat idx then d @ [val] else d[unat idx := val])"

text \<open>
  \<^verbatim>\<open>Push\<close>: the next write index is computed first (the division), then compared
  with the read index; then the slot is written and the write index published.
\<close>

definition RingBuffer_Push :: "'a \<Rightarrow> 'a RingBuffer \<Rightarrow> error + (bool \<times> 'a RingBuffer)" where
  "RingBuffer_Push val s =
     (let currentWriteIdx = writeIdx s in
      case umod (currentWriteIdx + 1) (capacity s) of
        Inl e \<Rightarrow> Inl e
      | Inr nextWriteIdx \<Rightarrow>
          if nextWriteIdx = readIdx s then Inr (False, s)
          else Inr (True, s\<lparr>data := store_slot currentWriteIdx val (data s),
                             writeIdx := nextWriteIdx\<rparr>))"

text \<open>
  \<^verbatim>\<open>Pop\<close>: the emptiness test comes first, then the read of the slot, then the
  division. The slot that was moved from keeps its value in the model (it does
  for the scalar element types); no operation reads it again before a
  \<^verbatim>\<open>Push\<close> overwrites it.
\<close>

definition RingBuffer_Pop :: "'a RingBuffer \<Rightarrow> error + ('a option \<times> 'a RingBuffer)" where
  "RingBuffer_Pop s =
     (let idx = readIdx s in
      if idx = writeIdx s then Inr (None, s)
      else if length (data s) \<le> unat idx then Inl OutOfRange
      else
        let val = data s ! unat idx in
        case umod (idx + 1) (capacity s) of
          Inl e \<Rightarrow> Inl e
        | Inr nextReadIdx \<Rightarrow> Inr (Some val, s\<lparr>readIdx := nextReadIdx\<rparr>))"

text \<open>
  \<^verbatim>\<open>FastRingBuffer\<close> has the fields of \<^verbatim>\<open>RingBuffer\<close> under the same names and
  two more, the cached copies of the other side's index.
\<close>

record 'a FastRingBuffer = "'a RingBuffer" +
  writeIdxCached :: size_t
  readIdxCached :: size_t

definition FastRingBuffer_new :: "size_t \<Rightarrow> 'a FastRingBuffer" where
  "FastRingBuffer_new cap =
     \<lparr>data = [], capacity = cap, readIdx = 0, writeIdx = 0,
      writeIdxCached = 0, readIdxCached = 0\<rparr>"

definition FastRingBuffer_ctor :: "nat \<Rightarrow> bool \<Rightarrow> size_t \<Rightarrow> error + 'a FastRingBuffer" where
  "FastRingBuffer_ctor max_size alloc_ok cap =
     (case vector_reserve max_size alloc_ok cap of
        Inl e \<Rightarrow> Inl e
      | Inr u \<Rightarrow> Inr (FastRingBuffer_new cap))"

text \<open>
  \<^verbatim>\<open>FastRingBuffer::Push\<close> after its full test: the slot is written and the write
  index published.
\<close>

definition FastRingBuffer_publish ::
  "size_t \<Rightarrow> size_t \<Rightarrow> 'a \<Rightarrow> 'a FastRingBuffer \<Rightarrow> error + (bool \<times> 'a FastRingBuffer)" where
  "FastRingBuffer_publish currentWriteIdx nextWriteIdx val s =
     Inr (True, s\<lparr>data := store_slot currentWriteIdx val (data s),
                   writeIdx := nextWriteIdx\<rparr>)"

text \<open>
  \<^verbatim>\<open>FastRingBuffer::Push\<close>: the cached read index is compared first; only when it
  says full is the real read index loaded into the cache and compared again.
\<close>

definition FastRingBuffer_Push ::
  "'a \<Rightarrow> 'a FastRingBuffer \<Rightarrow> error + (bool \<times> 'a FastRingBuffer)" where
  "FastRingBuffer_Push val s =
     (let currentWriteIdx = writeIdx s in
      case umod (currentWriteIdx + 1) (capacity s) of
        Inl e \<Rightarrow> Inl e
      | Inr nextWriteIdx \<Rightarrow>
          if nextWriteIdx = readIdxCached s then
            (let s1 = s\<lparr>readIdxCached := readIdx s\<rparr> in
             if nextWriteIdx = readIdxCached s1 then Inr (False, s1)
             else FastRingBuffer_publish currentWriteIdx nextWriteIdx val s1)
          else FastRingBuffer_publish currentWriteIdx nextWriteIdx val s)"

text \<open>
  \<^verbatim>\<open>FastRingBuffer::Pop\<close> after its empty test: the slot is read, then the next
  read index computed and published.
\<close>

definition FastRingBuffer_consume ::
  "size_t \<Rightarrow> 'a FastRingBuffer \<Rightarrow> error + ('a option \<times> 'a FastRingBuffer)" where
  "FastRingBuffer_consume idx s =
     (if length (data s) \<le> unat idx then Inl OutOfRange
      else
        let val = data s ! unat idx in
        case umod (idx + 1) (capacity s) of
          Inl e \<Rightarrow> Inl e
        | Inr nextReadIdx \<Rightarrow> Inr (Some val, s\<lparr>readIdx := nextReadIdx\<rparr>))"

definition FastRingBuffer_Pop ::
  "'a FastRingBuffer \<Rightarrow> error + ('a option \<times> 'a FastRingBuffer)" where
  "FastRingBuffer_Pop s =
     (let idx = readIdx s in
      if idx = writeIdxCached s then
        (let s1 = s\<lparr>writeIdxCached := writeIdx s\<rparr> in
         if idx = writeIdxCached s1 then Inr (None, s1)
         else FastRingBuffer_consume idx s1)
      else FastRingBuffer_consume idx s)"

subsection \<open>Sequential executions\<close>

text \<open>
  A sequential client is a list of calls; running it collects what each call
  returned and stops at the first error.
\<close>

datatype 'a rb_call = CallPush 'a | CallPop

datatype 'a rb_result = PushResult bool | PopResult "'a option"

fun rb_apply :: "'a rb_call \<Rightarrow> 'a RingBuffer \<Rightarrow> error + ('a rb_result \<times> 'a RingBuffer)" where
  "rb_apply (CallPush v) s =
     (case RingBuffer_Push v s of Inl e \<Rightarrow> Inl e | Inr (b, s') \<Rightarrow> Inr (PushResult b, s'))"
| "rb_apply CallPop s =
     (case RingBuffer_Pop s of Inl e \<Rightarrow> Inl e | Inr (x, s') \<Rightarrow> Inr (PopResult x, s'))"

fun rb_run :: "'a rb_call list \<Rightarrow> 'a RingBuffer \<Rightarrow> error + ('a rb_result list \<times> 'a RingBuffer)" where
  "rb_run [] s = Inr ([], s)"
| "rb_run (c # cs) s =
     (case rb_apply c s of
        Inl e \<Rightarrow> Inl e
      | Inr (r, s') \<Rightarrow>
          (case rb_run cs s' of Inl e \<Rightarrow> Inl e | Inr (rs, s'') \<Rightarrow> Inr (r # rs, s'')))"

fun frb_apply ::
  "'a rb_call \<Rightarrow> 'a FastRingBuffer \<Rightarrow> error + ('a rb_result \<times> 'a FastRingBuffer)" where
  "frb_apply (CallPush v) s =
     (case FastRingBuffer_Push v s of Inl e \<Rightarrow> Inl e | Inr (b, s') \<Rightarrow> Inr (PushResult b, s'))"
| "frb_apply CallPop s =
     (case FastRingBuffer_Pop s of Inl e \<Rightarrow> Inl e | Inr (x, s') \<Rightarrow> Inr (PopResult x, s'))"

fun frb_run ::
  "'a rb_call list \<Rightarrow> 'a FastRingBuffer \<Rightarrow> error + ('a rb_result list \<times> 'a FastRingBuffer)" where
  "frb_run [] s = Inr ([], s)"
| "frb_run (c # cs) s =
     (case frb_apply c s of
        Inl e \<Rightarrow> Inl e
      | Inr (r, s') \<Rightarrow>
          (case frb_run cs s' of Inl e \<Rightarrow> Inl e | Inr (rs, s'') \<Rightarrow> Inr (r # rs, s'')))"

subsection \<open>Reachable states\<close>

text \<open>
  What every state reached from a fresh buffer of capacity at least 1 satisfies:
  both indices are below the capacity, and either the vector has grown to the
  capacity, or the write index has not wrapped yet, so the vector holds exactly
  the slots below the write index, and the read index is among them.
\<close>

definition rb_inv :: "('a, 'z) RingBuffer_scheme \<Rightarrow> bool" where
  "rb_inv s \<longleftrightarrow>
     unat (readIdx s) < unat (capacity s) \<and> unat (writeIdx s) < unat (capacity s) \<and>
     (length (data s) = unat (capacity s) \<or>
      (unat (writeIdx s) = length (data s) \<and> unat (readIdx s) \<le> unat (writeIdx s)))"

subsection \<open>The cached indices of FastRingBuffer\<close>

text \<open>
  The distance from index \<open>a\<close> forward to index \<open>b\<close> around a ring of \<open>C\<close>
  slots: the number of elements in a buffer whose read index is \<open>a\<close> and
  whose write index is \<open>b\<close>.
\<close>

definition cdist :: "nat \<Rightarrow> nat \<Rightarrow> nat \<Rightarrow> nat" where
  "cdist C a b = (if a \<le> b then b - a else b + C - a)"

text \<open>
  A cached index is an earlier value of the real one: the cached write index
  lies between the read index and the write index, and the read index lies
  between the cached read index and the write index.
\<close>

definition cached_ok :: "nat \<Rightarrow> nat \<Rightarrow> nat \<Rightarrow> nat \<Rightarrow> nat \<Rightarrow> bool" where
  "cached_ok C r w rc wc \<longleftrightarrow>
     rc < C \<and> wc < C \<and> cdist C r wc \<le> cdist C r w \<and> cdist C r w \<le> cdist C rc w"

definition frb_inv :: "'a FastRingBuffer \<Rightarrow> bool" where
  "frb_inv f \<longleftrightarrow>
     rb_inv f \<and>
     cached_ok (unat (capacity f)) (unat (readIdx f)) (unat (writeIdx f))
       (unat (readIdxCached f)) (unat (writeIdxCached f))"

text \<open>Which calls are pushes, and what a call returns when the buffer refuses it.\<close>

fun is_push :: "'a rb_call \<Rightarrow> bool" where
  "is_push (CallPush v) = True"
| "is_push CallPop = False"

definition refused :: "'a rb_call \<Rightarrow> 'a rb_result" where
  "refused c = (case c of CallPush v \<Rightarrow> PushResult False | CallPop \<Rightarrow> PopResult None)"

section \<open>Atomic read-modify-write operations\<close>

text \<open>
  An atomic object is modelled by its value. \<^verbatim>\<open>compare_exchange_strong\<close> takes the
  expected and the desired value and the object's current value, and returns
  whether it succeeded, what it leaves in \<^verbatim>\<open>expected\<close>, and the object's new
  value. \<^verbatim>\<open>compare_exchange_weak\<close> may also fail when the values are equal (a
  spurious failure, which the C++ standard allows); whether it does is the first
  argument. \<^verbatim>\<open>fetch_add\<close> returns the old and the new value.
\<close>

definition compare_exchange_strong :: "'a \<Rightarrow> 'a \<Rightarrow> 'a \<Rightarrow> bool \<times> 'a \<times> 'a" where
  "compare_exchange_strong expected desired current =
     (if current = expected then (True, expected, desired) else (False, current, current))"

definition compare_exchange_weak :: "bool \<Rightarrow> 'a \<Rightarrow> 'a \<Rightarrow> 'a \<Rightarrow> bool \<times> 'a \<times> 'a" where
  "compare_exchange_weak spurious expected desired current =
     (if current = expected \<and> \<not> spurious then (True, expected, desired)
      else (False, current, current))"

definition fetch_add :: "'a::plus \<Rightarrow> 'a \<Rightarrow> 'a \<times> 'a" where
  "fetch_add arg current = (current, current + arg)"

section \<open>TTAS spinlock (src/thread/sync/ttas_spinlock.hpp)\<close>

text \<open>
  The lock is its one atomic flag. \<^verbatim>\<open>TryCompareExchange\<close> is one weak
  compare-and-swap of the flag from false to true; its first argument says whether
  this exchange fails spuriously. \<^verbatim>\<open>try_lock\<close> returns what that one exchange
  returns, and \<^verbatim>\<open>unlock\<close> stores false.
\<close>

record TASSpinLock =
  locked :: bool

definition TASSpinLock_init :: TASSpinLock where
  "TASSpinLock_init = \<lparr>locked = False\<rparr>"

definition TryCompareExchange :: "bool \<Rightarrow> TASSpinLock \<Rightarrow> bool \<times> TASSpinLock" where
  "TryCompareExchange spurious s =
     (let expected = False;
          (ok, expected', v) = compare_exchange_weak spurious expected True (locked s)
      in (ok, s\<lparr>locked := v\<rparr>))"

definition TASSpinLock_try_lock :: "bool \<Rightarrow> TASSpinLock \<Rightarrow> bool \<times> TASSpinLock" where
  "TASSpinLock_try_lock spurious s = TryCompareExchange spurious s"

definition TASSpinLock_unlock :: "TASSpinLock \<Rightarrow> TASSpinLock" where
  "TASSpinLock_unlock s = s\<lparr>locked := False\<rparr>"

text \<open>
  \<^verbatim>\<open>lock\<close> run with no other thread taking a step: the inner loop reads the flag
  until it is false, so it never ends on a flag that is set; the outer loop
  tries the exchange again. The spurious failures of the successive exchanges
  are given by a function of the attempt's number.
\<close>

partial_function (option) spin_while_locked :: "TASSpinLock \<Rightarrow> TASSpinLock option" where
  "spin_while_locked s = (if locked s then spin_while_locked s else Some s)"

partial_function (option) TASSpinLock_lock ::
  "(nat \<Rightarrow> bool) \<Rightarrow> nat \<Rightarrow> TASSpinLock \<Rightarrow> TASSpinLock option" where
  "TASSpinLock_lock spurious n s =
     (let r = TryCompareExchange (spurious n) s in
      if fst r then Some (snd r)
      else Option.bind (spin_while_locked (snd r)) (TASSpinLock_lock spurious (Suc n)))"

section \<open>Ticket lock (src/thread/sync/ticket_lock.hpp)\<close>

text \<open>\<^verbatim>\<open>Ticket\<close> is \<^verbatim>\<open>uint64_t\<close>: adding 1 to the largest value gives 0.\<close>

type_synonym Ticket = "64 word"

record TicketLock =
  next_free_ticket :: Ticket
  owner_ticket :: Ticket

definition TicketLock_init :: TicketLock where
  "TicketLock_init = \<lparr>next_free_ticket = 0, owner_ticket = 0\<rparr>"

text \<open>
  The atomic operations of the three member functions, one definition each.
  \<^verbatim>\<open>lock\<close> draws its ticket with a \<^verbatim>\<open>fetch_add\<close> and then reads the owner
  ticket until it equals the drawn one; \<^verbatim>\<open>try_lock\<close> loads the owner ticket and
  then runs one strong compare-and-swap on the next free ticket; other threads
  may take steps between the two.
\<close>

definition TicketLock_lock_draw :: "TicketLock \<Rightarrow> Ticket \<times> TicketLock" where
  "TicketLock_lock_draw s =
     (let (this_thread_ticket, v) = fetch_add 1 (next_free_ticket s)
      in (this_thread_ticket, s\<lparr>next_free_ticket := v\<rparr>))"

definition TicketLock_lock_spins :: "Ticket \<Rightarrow> TicketLock \<Rightarrow> bool" where
  "TicketLock_lock_spins this_thread_ticket s \<longleftrightarrow> this_thread_ticket \<noteq> owner_ticket s"

definition TicketLock_try_lock_load :: "TicketLock \<Rightarrow> Ticket" where
  "TicketLock_try_lock_load s = owner_ticket s"

definition TicketLock_try_lock_cas :: "Ticket \<Rightarrow> TicketLock \<Rightarrow> bool \<times> TicketLock" where
  "TicketLock_try_lock_cas current_owner_ticket s =
     (let (ok, expected', v) =
            compare_exchange_strong current_owner_ticket (current_owner_ticket + 1)
              (next_free_ticket s)
      in (ok, s\<lparr>next_free_ticket := v\<rparr>))"

text \<open>\<^verbatim>\<open>try_lock\<close> when no other thread takes a step between its load and its exchange.\<close>

definition TicketLock_try_lock :: "TicketLock \<Rightarrow> bool \<times> TicketLock" where
  "TicketLock_try_lock s = TicketLock_try_lock_cas (TicketLock_try_lock_load s) s"

definition TicketLock_unlock :: "TicketLock \<Rightarrow> TicketLock" where
  "TicketLock_unlock s = s\<lparr>owner_ticket := snd (fetch_add 1 (owner_ticket s))\<rparr>"

subsection \<open>Threads taking the ticket lock\<close>

text \<open>
  Where a thread stands: outside the lock's functions, in \<^verbatim>\<open>lock\<close> with its
  ticket drawn and reading the owner ticket, in \<^verbatim>\<open>try_lock\<close> with the owner
  ticket loaded, or past a successful \<^verbatim>\<open>lock\<close> or \<^verbatim>\<open>try_lock\<close> and before its
  \<^verbatim>\<open>unlock\<close>, with the ticket it took.
\<close>

datatype tl_pc = Idle | LockSpin Ticket | TryLoaded Ticket | Holding Ticket

record tl_system =
  shared :: TicketLock
  pc :: "nat \<Rightarrow> tl_pc"

definition tl_init :: tl_system where
  "tl_init = \<lparr>shared = TicketLock_init, pc = (\<lambda>i. Idle)\<rparr>"

text \<open>
  A step is one atomic operation of one thread. A thread calls \<^verbatim>\<open>unlock\<close> only
  after a successful acquire of its own; a step that its thread cannot take
  where it stands has no result.
\<close>

datatype tl_step = LockDraw nat | LockRead nat | TryLoad nat | TryCas nat | Unlock nat

fun tl_next :: "tl_step \<Rightarrow> tl_system \<Rightarrow> tl_system option" where
  "tl_next (LockDraw i) s =
     (case pc s i of
        Idle \<Rightarrow>
          (let (t, l) = TicketLock_lock_draw (shared s)
           in Some \<lparr>shared = l, pc = (pc s)(i := LockSpin t)\<rparr>)
      | _ \<Rightarrow> None)"
| "tl_next (LockRead i) s =
     (case pc s i of
        LockSpin t \<Rightarrow>
          Some (if TicketLock_lock_spins t (shared s) then s
                else s\<lparr>pc := (pc s)(i := Holding t)\<rparr>)
      | _ \<Rightarrow> None)"
| "tl_next (TryLoad i) s =
     (case pc s i of
        Idle \<Rightarrow> Some (s\<lparr>pc := (pc s)(i := TryLoaded (TicketLock_try_lock_load (shared s)))\<rparr>)
      | _ \<Rightarrow> None)"
| "tl_next (TryCas i) s =
     (case pc s i of
        TryLoaded c \<Rightarrow>
          (let (ok, l) = TicketLock_try_lock_cas c (shared s)
           in Some \<lparr>shared = l, pc = (pc s)(i := if ok then Holding c else Idle)\<rparr>)
      | _ \<Rightarrow> None)"
| "tl_next (Unlock i) s =
     (case pc s i of
        Holding t \<Rightarrow> Some \<lparr>shared = TicketLock_unlock (shared s), pc = (pc s)(i := Idle)\<rparr>
      | _ \<Rightarrow> None)"

fun tl_run :: "tl_step list \<Rightarrow> tl_system \<Rightarrow> tl_system option" where
  "tl_run [] s = Some s"
| "tl_run (x # xs) s = (case tl_next x s of None \<Rightarrow> None | Some s' \<Rightarrow> tl_run xs s')"

text \<open>The ticket a thread has drawn, and whether it holds the lock.\<close>

fun drawn :: "tl_pc \<Rightarrow> Ticket option" where
  "drawn (LockSpin t) = Some t"
| "drawn (Holding t) = Some t"
| "drawn Idle = None"
| "drawn (TryLoaded c) = None"

fun holds :: "tl_pc \<Rightarrow> bool" where
  "holds (Holding t) = True"
| "holds Idle = False"
| "holds (LockSpin t) = False"
| "holds (TryLoaded c) = False"

text \<open>The two counters of a state and where the listed threads stand.\<close>

definition tl_view :: "nat list \<Rightarrow> tl_system \<Rightarrow> Ticket \<times> Ticket \<times> tl_pc list" where
  "tl_view is s = (next_free_ticket (shared s), owner_ticket (shared s), map (pc s) is)"

text \<open>
  The invariant of the first \<open>n\<close> steps: the counters have not wrapped, the drawn
  tickets are the distinct values from the owner ticket up to the next free one,
  a holder's ticket is the owner ticket, and a loaded owner ticket is not ahead
  of the real one.
\<close>

definition tl_inv :: "nat \<Rightarrow> tl_system \<Rightarrow> bool" where
  "tl_inv n s \<longleftrightarrow>
     unat (owner_ticket (shared s)) \<le> unat (next_free_ticket (shared s)) \<and>
     unat (next_free_ticket (shared s)) \<le> n \<and>
     (\<forall>i t. drawn (pc s i) = Some t \<longrightarrow>
        unat (owner_ticket (shared s)) \<le> unat t \<and> unat t < unat (next_free_ticket (shared s))) \<and>
     (\<forall>i j t. drawn (pc s i) = Some t \<and> drawn (pc s j) = Some t \<longrightarrow> i = j) \<and>
     (\<forall>i t. pc s i = Holding t \<longrightarrow> t = owner_ticket (shared s)) \<and>
     (\<forall>i c. pc s i = TryLoaded c \<longrightarrow> unat c \<le> unat (owner_ticket (shared s)))"

text \<open>Every ticket from the owner ticket up to the next free one is some thread's.\<close>

definition tl_full :: "tl_system \<Rightarrow> bool" where
  "tl_full s \<longleftrightarrow>
     (\<forall>k. unat (owner_ticket (shared s)) \<le> k \<and> k < unat (next_free_ticket (shared s)) \<longrightarrow>
        (\<exists>i. drawn (pc s i) = Some (of_nat k)))"

section \<open>Futex mutex (src/thread/sync/mutex.hpp, src/os/futex/futex.hpp)\<close>










subsection \<open>Threads taking the mutex\<close>













section \<open>Queue (MCS) spinlock (src/thread/sync/mcs_spinlock.hpp)\<close>

text \<open>\<^verbatim>\<open>exchange\<close> on an atomic object returns the old value and the new one.\<close>

definition atomic_exchange :: "'a \<Rightarrow> 'a \<Rightarrow> 'a \<times> 'a" where
  "atomic_exchange desired current = (current, desired)"

text \<open>
  A guard is known by its address, a number; \<^verbatim>\<open>nullptr\<close> is \<open>None\<close>. The lock's
  memory is its \<^verbatim>\<open>tail_\<close> pointer and, for every address, the two fields
  \<^verbatim>\<open>next_\<close> and \<^verbatim>\<open>is_owner_\<close> of the guard there. Each guard belongs to one
  thread, and \<open>stage\<close> says where that thread stands:
  \<^item> \<open>NoGuard\<close>: no guard lives at the address (before the constructor, after
    the destructor);
  \<^item> \<open>AtExchange\<close>: the members are initialised and \<^verbatim>\<open>Enqueue\<close> is about to
    exchange the tail;
  \<^item> \<open>AtSetOwner\<close>: the exchange returned \<^verbatim>\<open>nullptr\<close>, the store to the guard's
    own \<^verbatim>\<open>is_owner_\<close> comes next;
  \<^item> \<open>AtLink p\<close>: the exchange returned \<open>p\<close>, the store to \<open>p\<close>'s \<^verbatim>\<open>next_\<close> comes
    next;
  \<^item> \<open>AcquireSpin\<close>: in the loop of \<^verbatim>\<open>Acquire\<close>, reading its own \<^verbatim>\<open>is_owner_\<close>;
  \<^item> \<open>Critical\<close>: \<^verbatim>\<open>Acquire\<close> has returned; the destructor's \<^verbatim>\<open>Dequeue\<close> starts
    with the compare-and-swap of the tail;
  \<^item> \<open>ReleaseSpin\<close>: the compare-and-swap failed, \<^verbatim>\<open>SpinUntilNextWaiter\<close> reads
    the guard's \<^verbatim>\<open>next_\<close>;
  \<^item> \<open>AtHandoff\<close>: the loop has seen a successor, the store to its \<^verbatim>\<open>is_owner_\<close>
    comes next.
\<close>

datatype mcs_pc =
  NoGuard | AtExchange | AtSetOwner | AtLink nat | AcquireSpin | Critical | ReleaseSpin | AtHandoff

record QueueSpinLock =
  tail :: "nat option"
  guard_next :: "nat \<Rightarrow> nat option"
  guard_is_owner :: "nat \<Rightarrow> bool"
  stage :: "nat \<Rightarrow> mcs_pc"

definition QueueSpinLock_init :: QueueSpinLock where
  "QueueSpinLock_init =
     \<lparr>tail = None, guard_next = (\<lambda>g. None), guard_is_owner = (\<lambda>g. False),
      stage = (\<lambda>g. NoGuard)\<rparr>"

text \<open>
  A step is one atomic operation of the thread of one guard (the constructor's
  member initialisation counts as one). The last operation of \<^verbatim>\<open>Dequeue\<close> loads
  \<^verbatim>\<open>next_\<close> again and stores through it; a null pointer there has no result.
\<close>

datatype mcs_step =
  Construct nat | Exchange nat | SetOwner nat | Link nat | AcquireRead nat
  | ReleaseCas nat | ReleaseRead nat | Handoff nat

fun mcs_next :: "mcs_step \<Rightarrow> QueueSpinLock \<Rightarrow> QueueSpinLock option" where
  "mcs_next (Construct g) s =
     (case stage s g of
        NoGuard \<Rightarrow>
          Some (s\<lparr>guard_next := (guard_next s)(g := None),
                  guard_is_owner := (guard_is_owner s)(g := False),
                  stage := (stage s)(g := AtExchange)\<rparr>)
      | _ \<Rightarrow> None)"
| "mcs_next (Exchange g) s =
     (case stage s g of
        AtExchange \<Rightarrow>
          (let (prev_tail, v) = atomic_exchange (Some g) (tail s)
           in Some (s\<lparr>tail := v,
                      stage := (stage s)(g := (case prev_tail of
                                                 None \<Rightarrow> AtSetOwner
                                               | Some p \<Rightarrow> AtLink p))\<rparr>))
      | _ \<Rightarrow> None)"
| "mcs_next (SetOwner g) s =
     (case stage s g of
        AtSetOwner \<Rightarrow>
          Some (s\<lparr>guard_is_owner := (guard_is_owner s)(g := True),
                  stage := (stage s)(g := AcquireSpin)\<rparr>)
      | _ \<Rightarrow> None)"
| "mcs_next (Link g) s =
     (case stage s g of
        AtLink p \<Rightarrow>
          Some (s\<lparr>guard_next := (guard_next s)(p := Some g),
                  stage := (stage s)(g := AcquireSpin)\<rparr>)
      | _ \<Rightarrow> None)"
| "mcs_next (AcquireRead g) s =
     (case stage s g of
        AcquireSpin \<Rightarrow>
          Some (if \<not> guard_is_owner s g then s else s\<lparr>stage := (stage s)(g := Critical)\<rparr>)
      | _ \<Rightarrow> None)"
| "mcs_next (ReleaseCas g) s =
     (case stage s g of
        Critical \<Rightarrow>
          (let (ok, expected', v) = compare_exchange_strong (Some g) None (tail s)
           in Some (s\<lparr>tail := v,
                      stage := (stage s)(g := if ok then NoGuard else ReleaseSpin)\<rparr>))
      | _ \<Rightarrow> None)"
| "mcs_next (ReleaseRead g) s =
     (case stage s g of
        ReleaseSpin \<Rightarrow>
          Some (if guard_next s g = None then s else s\<lparr>stage := (stage s)(g := AtHandoff)\<rparr>)
      | _ \<Rightarrow> None)"
| "mcs_next (Handoff g) s =
     (case stage s g of
        AtHandoff \<Rightarrow>
          (case guard_next s g of
             None \<Rightarrow> None
           | Some n \<Rightarrow>
               Some (s\<lparr>guard_is_owner := (guard_is_owner s)(n := True),
                       stage := (stage s)(g := NoGuard)\<rparr>))
      | _ \<Rightarrow> None)"

fun mcs_run :: "mcs_step list \<Rightarrow> QueueSpinLock \<Rightarrow> QueueSpinLock option" where
  "mcs_run [] s = Some s"
| "mcs_run (x # xs) s = (case mcs_next x s of None \<Rightarrow> None | Some s' \<Rightarrow> mcs_run xs s')"

text \<open>
  The guards that exchanged the tail after the last exchange by guard \<open>g\<close>, in
  the order of their exchanges: the nodes enqueued after \<open>g\<close>.
\<close>

fun exchanger :: "mcs_step \<Rightarrow> nat option" where
  "exchanger (Exchange h) = Some h"
| "exchanger (Construct h) = None"
| "exchanger (SetOwner h) = None"
| "exchanger (Link h) = None"
| "exchanger (AcquireRead h) = None"
| "exchanger (ReleaseCas h) = None"
| "exchanger (ReleaseRead h) = None"
| "exchanger (Handoff h) = None"

definition enqueued_after :: "nat \<Rightarrow> mcs_step list \<Rightarrow> nat list" where
  "enqueued_after g xs =
     List.map_filter exchanger (rev (takeWhile (\<lambda>x. x \<noteq> Exchange g) (rev xs)))"

text \<open>The tail of a state and the guards at the listed addresses.\<close>

definition mcs_view ::
  "nat list \<Rightarrow> QueueSpinLock \<Rightarrow> nat option \<times> (nat option \<times> bool \<times> mcs_pc) list" where
  "mcs_view gs s = (tail s, map (\<lambda>g. (guard_next s g, guard_is_owner s g, stage s g)) gs)"

subsection \<open>The wait queue\<close>

text \<open>
  The invariant speaks of the list \<open>q\<close> of the guards that have exchanged the
  tail and not yet left \<^verbatim>\<open>Dequeue\<close>, in the order of their exchanges.
\<close>

fun enqueued :: "mcs_pc \<Rightarrow> bool" where
  "enqueued NoGuard = False"
| "enqueued AtExchange = False"
| "enqueued AtSetOwner = True"
| "enqueued (AtLink p) = True"
| "enqueued AcquireSpin = True"
| "enqueued Critical = True"
| "enqueued ReleaseSpin = True"
| "enqueued AtHandoff = True"

fun linking :: "mcs_pc \<Rightarrow> bool" where
  "linking (AtLink p) = True"
| "linking NoGuard = False"
| "linking AtExchange = False"
| "linking AtSetOwner = False"
| "linking AcquireSpin = False"
| "linking Critical = False"
| "linking ReleaseSpin = False"
| "linking AtHandoff = False"

fun waiting :: "mcs_pc \<Rightarrow> bool" where
  "waiting (AtLink p) = True"
| "waiting AcquireSpin = True"
| "waiting NoGuard = False"
| "waiting AtExchange = False"
| "waiting AtSetOwner = False"
| "waiting Critical = False"
| "waiting ReleaseSpin = False"
| "waiting AtHandoff = False"

text \<open>
  Two neighbours \<open>a\<close>, \<open>b\<close> of the queue: either \<open>b\<close> has not linked itself yet,
  it remembers \<open>a\<close> and \<open>a\<close>'s \<^verbatim>\<open>next_\<close> is still null, or \<open>a\<close>'s \<^verbatim>\<open>next_\<close> is \<open>b\<close>.
\<close>

definition link_ok :: "QueueSpinLock \<Rightarrow> nat \<Rightarrow> nat \<Rightarrow> bool" where
  "link_ok s a b =
     (if linking (stage s b) then stage s b = AtLink a \<and> guard_next s a = None
      else guard_next s a = Some b)"

definition mcs_inv :: "nat list \<Rightarrow> QueueSpinLock \<Rightarrow> bool" where
  "mcs_inv q s \<longleftrightarrow>
     distinct q \<and>
     tail s = (if q = [] then None else Some (last q)) \<and>
     (\<forall>g. g \<in> set q \<longleftrightarrow> enqueued (stage s g)) \<and>
     (\<forall>g. stage s g = AtExchange \<longrightarrow> guard_next s g = None \<and> \<not> guard_is_owner s g) \<and>
     (\<forall>i. Suc i < length q \<longrightarrow>
        link_ok s (q ! i) (q ! Suc i) \<and> waiting (stage s (q ! Suc i)) \<and>
        \<not> guard_is_owner s (q ! Suc i)) \<and>
     (q \<noteq> [] \<longrightarrow> guard_next s (last q) = None \<and> \<not> linking (stage s (hd q))) \<and>
     (\<forall>g. stage s g = ReleaseSpin \<or> stage s g = AtHandoff \<longrightarrow> 2 \<le> length q) \<and>
     (\<forall>g. stage s g = AtHandoff \<longrightarrow> guard_next s g \<noteq> None)"

definition tracks :: "nat list \<Rightarrow> mcs_step list \<Rightarrow> bool" where
  "tracks q xs \<longleftrightarrow> (\<forall>g \<in> set q. enqueued_after g xs = tl (dropWhile (\<lambda>h. h \<noteq> g) q))"

text \<open>How a step changes the list of the enqueued guards.\<close>

definition mcs_queue_step :: "mcs_step \<Rightarrow> QueueSpinLock \<Rightarrow> nat list \<Rightarrow> nat list" where
  "mcs_queue_step x s q =
     (case x of
        Exchange g \<Rightarrow> q @ [g]
      | ReleaseCas g \<Rightarrow> if tail s = Some g then tl q else q
      | Handoff g \<Rightarrow> tl q
      | _ \<Rightarrow> q)"

chapter \<open>Theorems\<close>

section \<open>Ring buffers\<close>

lemma unat_next_idx:
  fixes w c :: size_t
  assumes "w < c"
  shows "unat ((w + 1) mod c) = (if Suc (unat w) = unat c then 0 else Suc (unat w))"
proof -
  have lt: "unat w < unat c" using assms by (simp add: word_less_nat_alt)
  have "unat c < 2 ^ 64" using unsigned_less [of c] by simp
  then have "unat (w + 1) = Suc (unat w)"
    using lt by (simp add: unat_word_ariths)
  then show ?thesis using lt by (simp add: unat_mod)
qed

lemma rb_inv_cap: "rb_inv s \<Longrightarrow> capacity s \<noteq> 0"
  by (auto simp: rb_inv_def)

lemma word_eq_unat: "(a::size_t) = b \<longleftrightarrow> unat a = unat b"
  by (simp add: word_unat_eq_iff)

lemma Push_inv:
  assumes "rb_inv s"
  shows "\<exists>b s'. RingBuffer_Push v s = Inr (b, s') \<and> rb_inv s' \<and> capacity s' = capacity s"
  using assms rb_inv_cap[OF assms]
  by (auto simp: RingBuffer_Push_def umod_def Let_def rb_inv_def store_slot_def unat_next_idx word_less_nat_alt)

lemma Pop_inv:
  assumes "rb_inv s"
  shows "\<exists>b s'. RingBuffer_Pop s = Inr (b, s') \<and> rb_inv s' \<and> capacity s' = capacity s"
  using assms rb_inv_cap[OF assms]
  by (auto simp: RingBuffer_Pop_def umod_def Let_def rb_inv_def unat_next_idx word_less_nat_alt word_eq_unat)











lemma RingBuffer_new_inv: "C \<noteq> 0 \<Longrightarrow> rb_inv (RingBuffer_new C :: 'a RingBuffer)"
  by (simp add: rb_inv_def RingBuffer_new_def unat_gt_0)

lemma rb_apply_inv:
  assumes "rb_inv s"
  shows "\<exists>r s'. rb_apply c s = Inr (r, s') \<and> rb_inv s' \<and> capacity s' = capacity s"
proof (cases c)
  case (CallPush v)
  then show ?thesis using Push_inv [OF assms, of v] by auto
next
  case CallPop
  then show ?thesis using Pop_inv [OF assms] by auto
qed

lemma rb_run_inv:
  "rb_inv s \<Longrightarrow> \<exists>rs s'. rb_run cs s = Inr (rs, s') \<and> rb_inv s' \<and> capacity s' = capacity s"
proof (induction cs arbitrary: s)
  case Nil
  then show ?case by simp
next
  case (Cons c cs)
  obtain r s1 where 1: "rb_apply c s = Inr (r, s1)" "rb_inv s1" "capacity s1 = capacity s"
    using rb_apply_inv [OF Cons.prems] by blast
  obtain rs s2 where 2: "rb_run cs s1 = Inr (rs, s2)" "rb_inv s2" "capacity s2 = capacity s1"
    using Cons.IH [OF 1(2)] by blast
  show ?case using 1 2 by simp
qed

lemma rb_run_reachable:
  assumes "C \<noteq> 0" "rb_run cs (RingBuffer_new C) = Inr (rs, s)"
  shows "rb_inv s \<and> capacity s = C"
  using rb_run_inv [OF RingBuffer_new_inv [OF assms(1)], of cs] assms(2)
  by (auto simp: RingBuffer_new_def)

text \<open>
  Claim C3. In every state reached from a fresh buffer of capacity \<open>C \<ge> 1\<close> by
  a sequence of calls, Push returns false exactly when
  \<open>(writeIdx + 1) mod C = readIdx\<close>, Pop returns the empty result exactly when
  \<open>readIdx = writeIdx\<close>, and a failing call leaves the state as it was.
\<close>

theorem ring_buffer_full_empty:
  assumes "C \<noteq> 0" and "rb_run cs (RingBuffer_new C) = Inr (rs, s)"
  shows "(\<exists>b s'. RingBuffer_Push v s = Inr (b, s') \<and>
            (b = False \<longleftrightarrow> (writeIdx s + 1) mod C = readIdx s) \<and>
            (b = False \<longrightarrow> s' = s)) \<and>
         (\<exists>x s'. RingBuffer_Pop s = Inr (x, s') \<and>
            (x = None \<longleftrightarrow> readIdx s = writeIdx s) \<and>
            (x = None \<longrightarrow> s' = s))"
proof -
  have inv: "rb_inv s" and cap: "capacity s = C"
    using rb_run_reachable [OF assms] by simp_all
  have push: "\<exists>b s'. RingBuffer_Push v s = Inr (b, s') \<and>
            (b = False \<longleftrightarrow> (writeIdx s + 1) mod C = readIdx s) \<and>
            (b = False \<longrightarrow> s' = s)"
    using assms(1) cap by (auto simp: RingBuffer_Push_def umod_def Let_def)
  have pop: "\<exists>x s'. RingBuffer_Pop s = Inr (x, s') \<and>
            (x = None \<longleftrightarrow> readIdx s = writeIdx s) \<and>
            (x = None \<longrightarrow> s' = s)"
  proof (cases "readIdx s = writeIdx s")
    case True
    then show ?thesis by (simp add: RingBuffer_Pop_def)
  next
    case False
    then have "\<not> length (data s) \<le> unat (readIdx s)"
      using inv by (auto simp: rb_inv_def word_eq_unat)
    then show ?thesis
      using False assms(1) cap by (simp add: RingBuffer_Pop_def umod_def Let_def)
  qed
  show ?thesis using push pop by blast
qed

theorem ring_buffer_full_empty_witness:
  "RingBuffer_Push (9::nat) \<lparr>data = [1, 2], capacity = 3, readIdx = 0, writeIdx = 2\<rparr>
     = Inr (False, \<lparr>data = [1, 2], capacity = 3, readIdx = 0, writeIdx = 2\<rparr>) \<and>
   ((2::size_t) + 1) mod 3 = 0 \<and>
   RingBuffer_Pop \<lparr>data = [1::nat, 2], capacity = 3, readIdx = 0, writeIdx = 2\<rparr>
     = Inr (Some 1, \<lparr>data = [1, 2], capacity = 3, readIdx = 1, writeIdx = 2\<rparr>) \<and>
   RingBuffer_Pop (RingBuffer_new 3 :: nat RingBuffer) = Inr (None, RingBuffer_new 3) \<and>
   RingBuffer_Push (9::nat) (RingBuffer_new 3)
     = Inr (True, \<lparr>data = [9], capacity = 3, readIdx = 0, writeIdx = 1\<rparr>)"
proof -
  have h1: "(3::size_t) \<noteq> 0" by simp
  have h2: "rb_run [CallPush (1::nat), CallPush 2] (RingBuffer_new 3)
            = Inr ([PushResult True, PushResult True],
                   \<lparr>data = [1, 2], capacity = 3, readIdx = 0, writeIdx = 2\<rparr>)"
    by (simp add: RingBuffer_new_def RingBuffer_Push_def umod_def store_slot_def)
  have h3: "rb_run [] (RingBuffer_new 3 :: nat RingBuffer) = Inr ([], RingBuffer_new 3)"
    by simp
  show ?thesis
    using ring_buffer_full_empty [OF h1 h2, of 9] ring_buffer_full_empty [OF h1 h3, of 9]
    by (simp add: RingBuffer_Push_def RingBuffer_Pop_def RingBuffer_new_def umod_def
        store_slot_def)
qed

lemma cached_ok_refresh_r: "cached_ok C r w rc wc \<Longrightarrow> r < C \<Longrightarrow> cached_ok C r w r wc"
  by (simp add: cached_ok_def)

lemma cached_ok_refresh_w: "cached_ok C r w rc wc \<Longrightarrow> w < C \<Longrightarrow> cached_ok C r w rc w"
  by (simp add: cached_ok_def)

lemma cached_ok_full:
  "cached_ok C r w rc wc \<Longrightarrow> r < C \<Longrightarrow> w < C \<Longrightarrow>
   (if Suc w = C then 0 else Suc w) = r \<Longrightarrow> rc = r"
  by (auto simp: cached_ok_def cdist_def split: if_splits)

lemma cached_ok_empty:
  "cached_ok C r w rc wc \<Longrightarrow> r < C \<Longrightarrow> w < C \<Longrightarrow> r = w \<Longrightarrow> wc = r"
  by (auto simp: cached_ok_def cdist_def split: if_splits)

lemma cached_ok_push:
  "cached_ok C r w rc wc \<Longrightarrow> r < C \<Longrightarrow> w < C \<Longrightarrow>
   (if Suc w = C then 0 else Suc w) \<noteq> r \<Longrightarrow> (if Suc w = C then 0 else Suc w) \<noteq> rc \<Longrightarrow>
   cached_ok C r (if Suc w = C then 0 else Suc w) rc wc"
  by (auto simp: cached_ok_def cdist_def split: if_splits)

lemma cached_ok_pop:
  "cached_ok C r w rc wc \<Longrightarrow> r < C \<Longrightarrow> w < C \<Longrightarrow> r \<noteq> w \<Longrightarrow> r \<noteq> wc \<Longrightarrow>
   cached_ok C (if Suc r = C then 0 else Suc r) w rc wc"
  by (auto simp: cached_ok_def cdist_def split: if_splits)

lemma rb_inv_truncate: "rb_inv (RingBuffer.truncate f) = rb_inv f"
  by (simp add: rb_inv_def RingBuffer.truncate_def)

lemma rb_inv_more_update: "rb_inv (RingBuffer.more_update g f) = rb_inv f"
  by (simp add: rb_inv_def)

lemma frb_inv_bounds:
  assumes "frb_inv f"
  shows "capacity f \<noteq> 0" "readIdx f < capacity f" "writeIdx f < capacity f"
    "unat (readIdx f) < unat (capacity f)" "unat (writeIdx f) < unat (capacity f)"
  using assms by (auto simp: frb_inv_def rb_inv_def word_less_nat_alt)

lemma Fast_full_agree:
  assumes "frb_inv f" "(writeIdx f + 1) mod capacity f = readIdx f"
  shows "readIdxCached f = readIdx f"
proof -
  note b = frb_inv_bounds [OF assms(1)]
  have ok: "cached_ok (unat (capacity f)) (unat (readIdx f)) (unat (writeIdx f))
       (unat (readIdxCached f)) (unat (writeIdxCached f))"
    using assms(1) by (simp add: frb_inv_def)
  have "(if Suc (unat (writeIdx f)) = unat (capacity f) then 0 else Suc (unat (writeIdx f)))
        = unat (readIdx f)"
    using unat_next_idx [OF b(3)] assms(2) by simp
  then have "unat (readIdxCached f) = unat (readIdx f)"
    by (rule cached_ok_full [OF ok b(4) b(5)])
  then show ?thesis by (simp add: word_eq_unat)
qed

lemma Fast_empty_agree:
  assumes "frb_inv f" "readIdx f = writeIdx f"
  shows "writeIdxCached f = readIdx f"
proof -
  note b = frb_inv_bounds [OF assms(1)]
  have ok: "cached_ok (unat (capacity f)) (unat (readIdx f)) (unat (writeIdx f))
       (unat (readIdxCached f)) (unat (writeIdxCached f))"
    using assms(1) by (simp add: frb_inv_def)
  have "unat (readIdx f) = unat (writeIdx f)" using assms(2) by simp
  then have "unat (writeIdxCached f) = unat (readIdx f)"
    by (rule cached_ok_empty [OF ok b(4) b(5)])
  then show ?thesis by (simp add: word_eq_unat)
qed

lemma frb_inv_refresh_r:
  assumes "frb_inv f"
  shows "frb_inv (f\<lparr>readIdxCached := readIdx f\<rparr>)"
  using assms frb_inv_bounds(4) [OF assms]
  by (auto simp: frb_inv_def rb_inv_def intro: cached_ok_refresh_r)

lemma frb_inv_refresh_w:
  assumes "frb_inv f"
  shows "frb_inv (f\<lparr>writeIdxCached := writeIdx f\<rparr>)"
  using assms frb_inv_bounds(5) [OF assms]
  by (auto simp: frb_inv_def rb_inv_def intro: cached_ok_refresh_w)

lemma rb_inv_push:
  assumes "rb_inv s" "(writeIdx s + 1) mod capacity s \<noteq> readIdx s"
  shows "rb_inv (s\<lparr>data := store_slot (writeIdx s) v (data s),
                    writeIdx := (writeIdx s + 1) mod capacity s\<rparr>)"
proof -
  have w: "writeIdx s < capacity s" using assms(1) by (simp add: rb_inv_def word_less_nat_alt)
  show ?thesis
    using assms unat_next_idx [OF w]
    by (auto simp: rb_inv_def store_slot_def word_eq_unat split: if_splits)
qed

lemma rb_inv_pop:
  assumes "rb_inv s" "readIdx s \<noteq> writeIdx s"
  shows "rb_inv (s\<lparr>readIdx := (readIdx s + 1) mod capacity s\<rparr>)"
    and "\<not> length (data s) \<le> unat (readIdx s)"
proof -
  have r: "readIdx s < capacity s" using assms(1) by (simp add: rb_inv_def word_less_nat_alt)
  show "rb_inv (s\<lparr>readIdx := (readIdx s + 1) mod capacity s\<rparr>)"
    using assms unat_next_idx [OF r]
    by (auto simp: rb_inv_def word_eq_unat split: if_splits)
  show "\<not> length (data s) \<le> unat (readIdx s)"
    using assms by (auto simp: rb_inv_def word_eq_unat)
qed

lemma frb_inv_push:
  assumes "frb_inv f" "(writeIdx f + 1) mod capacity f \<noteq> readIdx f"
    "(writeIdx f + 1) mod capacity f \<noteq> readIdxCached f"
  shows "frb_inv (f\<lparr>data := store_slot (writeIdx f) v (data f),
                     writeIdx := (writeIdx f + 1) mod capacity f\<rparr>)"
proof -
  note b = frb_inv_bounds [OF assms(1)]
  let ?N = "if Suc (unat (writeIdx f)) = unat (capacity f) then 0 else Suc (unat (writeIdx f))"
  have n: "unat ((writeIdx f + 1) mod capacity f) = ?N" by (rule unat_next_idx [OF b(3)])
  have ok: "cached_ok (unat (capacity f)) (unat (readIdx f)) (unat (writeIdx f))
       (unat (readIdxCached f)) (unat (writeIdxCached f))"
    using assms(1) by (simp add: frb_inv_def)
  have 1: "?N \<noteq> unat (readIdx f)" using assms(2) n by (simp add: word_eq_unat)
  have 2: "?N \<noteq> unat (readIdxCached f)" using assms(3) n by (simp add: word_eq_unat)
  have ok': "cached_ok (unat (capacity f)) (unat (readIdx f)) ?N
       (unat (readIdxCached f)) (unat (writeIdxCached f))"
    by (rule cached_ok_push [OF ok b(4) b(5) 1 2])
  have "rb_inv f" using assms(1) by (simp add: frb_inv_def)
  from rb_inv_push [OF this assms(2), of v] ok' n
  show ?thesis by (simp add: frb_inv_def)
qed

lemma frb_inv_pop:
  assumes "frb_inv f" "readIdx f \<noteq> writeIdx f" "readIdx f \<noteq> writeIdxCached f"
  shows "frb_inv (f\<lparr>readIdx := (readIdx f + 1) mod capacity f\<rparr>)"
proof -
  note b = frb_inv_bounds [OF assms(1)]
  let ?N = "if Suc (unat (readIdx f)) = unat (capacity f) then 0 else Suc (unat (readIdx f))"
  have n: "unat ((readIdx f + 1) mod capacity f) = ?N" by (rule unat_next_idx [OF b(2)])
  have ok: "cached_ok (unat (capacity f)) (unat (readIdx f)) (unat (writeIdx f))
       (unat (readIdxCached f)) (unat (writeIdxCached f))"
    using assms(1) by (simp add: frb_inv_def)
  have 1: "unat (readIdx f) \<noteq> unat (writeIdx f)" using assms(2) by (simp add: word_eq_unat)
  have 2: "unat (readIdx f) \<noteq> unat (writeIdxCached f)" using assms(3) by (simp add: word_eq_unat)
  have ok': "cached_ok (unat (capacity f)) ?N (unat (writeIdx f))
       (unat (readIdxCached f)) (unat (writeIdxCached f))"
    by (rule cached_ok_pop [OF ok b(4) b(5) 1 2])
  have "rb_inv f" using assms(1) by (simp add: frb_inv_def)
  from rb_inv_pop(1) [OF this assms(2)] ok' n
  show ?thesis by (simp add: frb_inv_def)
qed

lemma Fast_Push_sim:
  assumes "frb_inv f"
  shows "\<exists>b f'. FastRingBuffer_Push v f = Inr (b, f') \<and> frb_inv f' \<and>
           RingBuffer_Push v (RingBuffer.truncate f) = Inr (b, RingBuffer.truncate f')"
proof -
  note b = frb_inv_bounds [OF assms]
  let ?nx = "(writeIdx f + 1) mod capacity f"
  let ?f1 = "f\<lparr>readIdxCached := readIdx f\<rparr>"
  have inv1: "frb_inv ?f1" by (rule frb_inv_refresh_r [OF assms])
  consider (full) "?nx = readIdx f"
    | (stale) "?nx \<noteq> readIdx f" "?nx = readIdxCached f"
    | (room) "?nx \<noteq> readIdx f" "?nx \<noteq> readIdxCached f"
    by blast
  then show ?thesis
  proof cases
    case full
    have rc: "readIdxCached f = readIdx f" by (rule Fast_full_agree [OF assms full])
    have 1: "FastRingBuffer_Push v f = Inr (False, ?f1)"
      using b(1) full rc by (simp add: FastRingBuffer_Push_def umod_def Let_def)
    have 2: "RingBuffer_Push v (RingBuffer.truncate f) = Inr (False, RingBuffer.truncate ?f1)"
      using b(1) full by (simp add: RingBuffer_Push_def umod_def RingBuffer.truncate_def Let_def)
    show ?thesis using 1 2 inv1 by blast
  next
    case stale
    let ?f' = "?f1\<lparr>data := store_slot (writeIdx ?f1) v (data ?f1),
                     writeIdx := (writeIdx ?f1 + 1) mod capacity ?f1\<rparr>"
    have inv': "frb_inv ?f'"
      by (rule frb_inv_push [OF inv1]) (use stale in simp_all)
    have 1: "FastRingBuffer_Push v f = Inr (True, ?f')"
      using b(1) stale
      by (simp add: FastRingBuffer_Push_def FastRingBuffer_publish_def umod_def Let_def)
    have 2: "RingBuffer_Push v (RingBuffer.truncate f) = Inr (True, RingBuffer.truncate ?f')"
      using b(1) stale(1) by (simp add: RingBuffer_Push_def umod_def RingBuffer.truncate_def Let_def)
    show ?thesis using 1 2 inv' by blast
  next
    case room
    let ?f' = "f\<lparr>data := store_slot (writeIdx f) v (data f), writeIdx := ?nx\<rparr>"
    have inv': "frb_inv ?f'" by (rule frb_inv_push [OF assms room])
    have 1: "FastRingBuffer_Push v f = Inr (True, ?f')"
      using b(1) room
      by (simp add: FastRingBuffer_Push_def FastRingBuffer_publish_def umod_def Let_def)
    have 2: "RingBuffer_Push v (RingBuffer.truncate f) = Inr (True, RingBuffer.truncate ?f')"
      using b(1) room(1) by (simp add: RingBuffer_Push_def umod_def RingBuffer.truncate_def Let_def)
    show ?thesis using 1 2 inv' by blast
  qed
qed

lemma Fast_Pop_sim:
  assumes "frb_inv f"
  shows "\<exists>x f'. FastRingBuffer_Pop f = Inr (x, f') \<and> frb_inv f' \<and>
           RingBuffer_Pop (RingBuffer.truncate f) = Inr (x, RingBuffer.truncate f')"
proof -
  note b = frb_inv_bounds [OF assms]
  have rinv: "rb_inv f" using assms by (simp add: frb_inv_def)
  let ?f1 = "f\<lparr>writeIdxCached := writeIdx f\<rparr>"
  have inv1: "frb_inv ?f1" by (rule frb_inv_refresh_w [OF assms])
  consider (empty) "readIdx f = writeIdx f"
    | (stale) "readIdx f \<noteq> writeIdx f" "readIdx f = writeIdxCached f"
    | (some) "readIdx f \<noteq> writeIdx f" "readIdx f \<noteq> writeIdxCached f"
    by blast
  then show ?thesis
  proof cases
    case empty
    have wc: "writeIdxCached f = readIdx f" by (rule Fast_empty_agree [OF assms empty])
    have 1: "FastRingBuffer_Pop f = Inr (None, ?f1)"
      using empty wc by (simp add: FastRingBuffer_Pop_def Let_def)
    have 2: "RingBuffer_Pop (RingBuffer.truncate f) = Inr (None, RingBuffer.truncate ?f1)"
      using empty by (simp add: RingBuffer_Pop_def RingBuffer.truncate_def Let_def)
    show ?thesis using 1 2 inv1 by blast
  next
    case stale
    let ?f' = "?f1\<lparr>readIdx := (readIdx ?f1 + 1) mod capacity ?f1\<rparr>"
    have inv': "frb_inv ?f'"
      by (rule frb_inv_pop [OF inv1]) (use stale in simp_all)
    note rng = rb_inv_pop(2) [OF rinv stale(1)]
    have 1: "FastRingBuffer_Pop f = Inr (Some (data f ! unat (readIdx f)), ?f')"
      using b(1) stale rng
      by (simp add: FastRingBuffer_Pop_def FastRingBuffer_consume_def umod_def Let_def)
    have 2: "RingBuffer_Pop (RingBuffer.truncate f)
             = Inr (Some (data f ! unat (readIdx f)), RingBuffer.truncate ?f')"
      using b(1) stale(1) rng
      by (simp add: RingBuffer_Pop_def umod_def RingBuffer.truncate_def Let_def)
    show ?thesis using 1 2 inv' by blast
  next
    case some
    let ?f' = "f\<lparr>readIdx := (readIdx f + 1) mod capacity f\<rparr>"
    have inv': "frb_inv ?f'" by (rule frb_inv_pop [OF assms some])
    note rng = rb_inv_pop(2) [OF rinv some(1)]
    have 1: "FastRingBuffer_Pop f = Inr (Some (data f ! unat (readIdx f)), ?f')"
      using b(1) some rng
      by (simp add: FastRingBuffer_Pop_def FastRingBuffer_consume_def umod_def Let_def)
    have 2: "RingBuffer_Pop (RingBuffer.truncate f)
             = Inr (Some (data f ! unat (readIdx f)), RingBuffer.truncate ?f')"
      using b(1) some(1) rng
      by (simp add: RingBuffer_Pop_def umod_def RingBuffer.truncate_def Let_def)
    show ?thesis using 1 2 inv' by blast
  qed
qed

lemma frb_apply_sim:
  assumes "frb_inv f"
  shows "\<exists>r f'. frb_apply c f = Inr (r, f') \<and> frb_inv f' \<and>
           rb_apply c (RingBuffer.truncate f) = Inr (r, RingBuffer.truncate f')"
proof (cases c)
  case (CallPush v)
  then show ?thesis using Fast_Push_sim [OF assms, of v] by auto
next
  case CallPop
  then show ?thesis using Fast_Pop_sim [OF assms] by auto
qed

lemma frb_run_sim:
  "frb_inv f \<Longrightarrow> \<exists>rs f'. frb_run cs f = Inr (rs, f') \<and> frb_inv f' \<and>
           rb_run cs (RingBuffer.truncate f) = Inr (rs, RingBuffer.truncate f')"
proof (induction cs arbitrary: f)
  case Nil
  then show ?case by simp
next
  case (Cons c cs)
  obtain r f1 where 1: "frb_apply c f = Inr (r, f1)" "frb_inv f1"
      "rb_apply c (RingBuffer.truncate f) = Inr (r, RingBuffer.truncate f1)"
    using frb_apply_sim [OF Cons.prems] by blast
  obtain rs f2 where 2: "frb_run cs f1 = Inr (rs, f2)" "frb_inv f2"
      "rb_run cs (RingBuffer.truncate f1) = Inr (rs, RingBuffer.truncate f2)"
    using Cons.IH [OF 1(2)] by blast
  show ?case using 1 2 by simp
qed

lemma FastRingBuffer_new_inv: "C \<noteq> 0 \<Longrightarrow> frb_inv (FastRingBuffer_new C)"
  by (simp add: frb_inv_def rb_inv_def FastRingBuffer_new_def unat_gt_0 cached_ok_def cdist_def)

lemma truncate_new: "RingBuffer.truncate (FastRingBuffer_new C) = RingBuffer_new C"
  by (simp add: RingBuffer.truncate_def FastRingBuffer_new_def RingBuffer_new_def)

text \<open>
  Claim C4. For every capacity \<open>C \<ge> 1\<close> and every sequence of calls run
  sequentially from a fresh buffer, FastRingBuffer returns the same results, call
  by call, as RingBuffer of the same capacity (and ends with the same vector
  and indices).
\<close>

theorem fast_ring_buffer_same_results:
  assumes "C \<noteq> 0"
  shows "\<exists>rs s f. rb_run cs (RingBuffer_new C) = Inr (rs, s) \<and>
           frb_run cs (FastRingBuffer_new C) = Inr (rs, f) \<and>
           RingBuffer.truncate f = s"
  using frb_run_sim [OF FastRingBuffer_new_inv [OF assms], of cs]
  by (auto simp: truncate_new)

theorem fast_ring_buffer_same_results_witness:
  "rb_run [CallPush (1::nat), CallPush 2, CallPop, CallPush 3, CallPush 4, CallPop, CallPop, CallPop]
     (RingBuffer_new 3)
   = Inr ([PushResult True, PushResult True, PopResult (Some 1), PushResult True,
           PushResult False, PopResult (Some 2), PopResult (Some 3), PopResult None],
          \<lparr>data = [1, 2, 3], capacity = 3, readIdx = 0, writeIdx = 0\<rparr>) \<and>
   frb_run [CallPush (1::nat), CallPush 2, CallPop, CallPush 3, CallPush 4, CallPop, CallPop, CallPop]
     (FastRingBuffer_new 3)
   = Inr ([PushResult True, PushResult True, PopResult (Some 1), PushResult True,
           PushResult False, PopResult (Some 2), PopResult (Some 3), PopResult None],
          \<lparr>data = [1, 2, 3], capacity = 3, readIdx = 0, writeIdx = 0,
           writeIdxCached = 0, readIdxCached = 1\<rparr>)"
proof -
  have h: "(3::size_t) \<noteq> 0" by simp
  show ?thesis
    using fast_ring_buffer_same_results [OF h,
      of "[CallPush (1::nat), CallPush 2, CallPop, CallPush 3, CallPush 4, CallPop, CallPop, CallPop]"]
    by (simp add: RingBuffer_new_def FastRingBuffer_new_def RingBuffer_Push_def RingBuffer_Pop_def
        FastRingBuffer_Push_def FastRingBuffer_Pop_def FastRingBuffer_publish_def
        FastRingBuffer_consume_def umod_def store_slot_def)
qed

lemma rb_run_total:
  "C \<noteq> 0 \<Longrightarrow> \<exists>rs s'. rb_run cs (RingBuffer_new C) = Inr (rs, s')"
  using rb_run_inv [OF RingBuffer_new_inv, of C cs] by blast

lemma frb_run_total:
  "C \<noteq> 0 \<Longrightarrow> \<exists>rs f'. frb_run cs (FastRingBuffer_new C) = Inr (rs, f')"
  using frb_run_sim [OF FastRingBuffer_new_inv, of C cs] by blast

lemma rb_run_capacity_one:
  "rb_run cs (RingBuffer_new 1) = Inr (map refused cs, RingBuffer_new 1)"
proof (induction cs)
  case Nil
  then show ?case by simp
next
  case (Cons c cs)
  have "rb_apply c (RingBuffer_new 1) = Inr (refused c, RingBuffer_new 1)"
    by (cases c)
      (simp_all add: refused_def RingBuffer_new_def RingBuffer_Push_def RingBuffer_Pop_def umod_def)
  then show ?case using Cons.IH by simp
qed

lemma frb_run_capacity_one:
  "frb_run cs (FastRingBuffer_new 1) = Inr (map refused cs, FastRingBuffer_new 1)"
proof (induction cs)
  case Nil
  then show ?case by simp
next
  case (Cons c cs)
  have "frb_apply c (FastRingBuffer_new 1) = Inr (refused c, FastRingBuffer_new 1)"
    by (cases c)
      (simp_all add: refused_def FastRingBuffer_new_def FastRingBuffer_Push_def
        FastRingBuffer_Pop_def umod_def)
  then show ?case using Cons.IH by simp
qed

lemma rb_run_capacity_zero:
  "rb_run cs (RingBuffer_new 0) = Inr (rs, s) \<Longrightarrow> s = RingBuffer_new 0"
proof (induction cs arbitrary: rs)
  case Nil
  then show ?case by simp
next
  case (Cons c cs)
  show ?case
  proof (cases c)
    case (CallPush v)
    then show ?thesis
      using Cons.prems by (simp add: RingBuffer_Push_def umod_def RingBuffer_new_def)
  next
    case CallPop
    have "RingBuffer_Pop (RingBuffer_new 0 :: 'a RingBuffer) = Inr (None, RingBuffer_new 0)"
      by (simp add: RingBuffer_Pop_def RingBuffer_new_def)
    then show ?thesis
      using Cons.prems Cons.IH CallPop by (auto split: sum.splits)
  qed
qed

lemma frb_run_capacity_zero:
  "frb_run cs (FastRingBuffer_new 0) = Inr (rs, f) \<Longrightarrow> f = FastRingBuffer_new 0"
proof (induction cs arbitrary: rs)
  case Nil
  then show ?case by simp
next
  case (Cons c cs)
  show ?case
  proof (cases c)
    case (CallPush v)
    then show ?thesis
      using Cons.prems by (simp add: FastRingBuffer_Push_def umod_def FastRingBuffer_new_def)
  next
    case CallPop
    have "FastRingBuffer_Pop (FastRingBuffer_new 0 :: 'a FastRingBuffer)
          = Inr (None, FastRingBuffer_new 0)"
      by (simp add: FastRingBuffer_Pop_def FastRingBuffer_new_def)
    then show ?thesis
      using Cons.prems Cons.IH CallPop by (auto split: sum.splits)
  qed
qed

lemma rb_apply_capacity_zero:
  "rb_apply c (RingBuffer_new 0)
   = (if is_push c then Inl DivisionByZero else Inr (refused c, RingBuffer_new 0))"
  by (cases c)
    (simp_all add: refused_def RingBuffer_new_def RingBuffer_Push_def RingBuffer_Pop_def umod_def)

lemma frb_apply_capacity_zero:
  "frb_apply c (FastRingBuffer_new 0)
   = (if is_push c then Inl DivisionByZero else Inr (refused c, FastRingBuffer_new 0))"
  by (cases c)
    (simp_all add: refused_def FastRingBuffer_new_def FastRingBuffer_Push_def
      FastRingBuffer_Pop_def umod_def)

lemma rb_run_capacity_zero_calls:
  "rb_run cs (RingBuffer_new 0)
   = (if list_ex is_push cs then Inl DivisionByZero else Inr (map refused cs, RingBuffer_new 0))"
  by (induction cs) (simp_all add: rb_apply_capacity_zero)

lemma frb_run_capacity_zero_calls:
  "frb_run cs (FastRingBuffer_new 0)
   = (if list_ex is_push cs then Inl DivisionByZero
      else Inr (map refused cs, FastRingBuffer_new 0))"
  by (induction cs) (simp_all add: frb_apply_capacity_zero)

text \<open>
  Claim C10. The constructors compare the capacity with nothing: they store it
  and hand it to \<^verbatim>\<open>reserve\<close>, which refuses a capacity above the vector's
  \<^verbatim>\<open>max_size()\<close> and may fail to allocate for a capacity other than 0; every
  other capacity is accepted, and 0 always. With capacity 0 the division
  \<open>(index + 1) % capacity\<close> is a division by zero in every \<^verbatim>\<open>Push\<close>, on the buffer
  as constructed too. \<^verbatim>\<open>Pop\<close> on a buffer constructed with capacity 0 never
  reaches its division: a sequence of calls divides by zero exactly when it has a
  \<^verbatim>\<open>Push\<close>, and until then the buffer is as constructed and every \<^verbatim>\<open>Pop\<close> returns
  empty from its emptiness test. With capacity at least 1 no call divides by zero
  in any state, and no call of any sequence on a constructed buffer fails. With
  capacity 1 every \<^verbatim>\<open>Push\<close> returns false and every \<^verbatim>\<open>Pop\<close> returns empty, and
  the buffer stays as constructed.
\<close>

theorem ring_buffer_capacity_zero_and_one:
  "RingBuffer_ctor max_size alloc_ok C
     = (if max_size < unat C then Inl LengthError
        else if C \<noteq> 0 \<and> \<not> alloc_ok then Inl BadAlloc
        else Inr (RingBuffer_new C :: 'a RingBuffer)) \<and>
   FastRingBuffer_ctor max_size alloc_ok C
     = (if max_size < unat C then Inl LengthError
        else if C \<noteq> 0 \<and> \<not> alloc_ok then Inl BadAlloc
        else Inr (FastRingBuffer_new C :: 'a FastRingBuffer)) \<and>
   RingBuffer_ctor max_size alloc_ok 0 = Inr (RingBuffer_new 0 :: 'a RingBuffer) \<and>
   FastRingBuffer_ctor max_size alloc_ok 0 = Inr (FastRingBuffer_new 0 :: 'a FastRingBuffer) \<and>
   capacity (RingBuffer_new C :: 'a RingBuffer) = C \<and>
   capacity (FastRingBuffer_new C :: 'a FastRingBuffer) = C \<and>
   (capacity s = 0 \<longrightarrow> RingBuffer_Push v s = Inl DivisionByZero) \<and>
   (capacity f = 0 \<longrightarrow> FastRingBuffer_Push v f = Inl DivisionByZero) \<and>
   RingBuffer_Push v (RingBuffer_new 0) = Inl DivisionByZero \<and>
   FastRingBuffer_Push v (FastRingBuffer_new 0) = Inl DivisionByZero \<and>
   rb_run cs (RingBuffer_new 0)
     = (if list_ex is_push cs then Inl DivisionByZero
        else Inr (map refused cs, RingBuffer_new 0)) \<and>
   frb_run cs (FastRingBuffer_new 0)
     = (if list_ex is_push cs then Inl DivisionByZero
        else Inr (map refused cs, FastRingBuffer_new 0)) \<and>
   (rb_run cs (RingBuffer_new 0) = Inr (rs, s0) \<longrightarrow>
      s0 = RingBuffer_new 0 \<and> RingBuffer_Pop s0 = Inr (None, s0)) \<and>
   (frb_run cs (FastRingBuffer_new 0) = Inr (rs, f0) \<longrightarrow>
      f0 = FastRingBuffer_new 0 \<and> FastRingBuffer_Pop f0 = Inr (None, f0)) \<and>
   (capacity s \<noteq> 0 \<longrightarrow>
      RingBuffer_Push v s \<noteq> Inl DivisionByZero \<and> RingBuffer_Pop s \<noteq> Inl DivisionByZero) \<and>
   (capacity f \<noteq> 0 \<longrightarrow>
      FastRingBuffer_Push v f \<noteq> Inl DivisionByZero \<and>
      FastRingBuffer_Pop f \<noteq> Inl DivisionByZero) \<and>
   (C \<noteq> 0 \<longrightarrow> (\<exists>rs' s'. rb_run cs (RingBuffer_new C) = Inr (rs', s')) \<and>
                (\<exists>rs' f'. frb_run cs (FastRingBuffer_new C) = Inr (rs', f'))) \<and>
   rb_run cs (RingBuffer_new 1) = Inr (map refused cs, RingBuffer_new 1) \<and>
   frb_run cs (FastRingBuffer_new 1) = Inr (map refused cs, FastRingBuffer_new 1)"
proof -
  have c1: "RingBuffer_ctor max_size alloc_ok C
     = (if max_size < unat C then Inl LengthError
        else if C \<noteq> 0 \<and> \<not> alloc_ok then Inl BadAlloc
        else Inr (RingBuffer_new C :: 'a RingBuffer))"
    by (simp add: RingBuffer_ctor_def vector_reserve_def)
  have c2: "FastRingBuffer_ctor max_size alloc_ok C
     = (if max_size < unat C then Inl LengthError
        else if C \<noteq> 0 \<and> \<not> alloc_ok then Inl BadAlloc
        else Inr (FastRingBuffer_new C :: 'a FastRingBuffer))"
    by (simp add: FastRingBuffer_ctor_def vector_reserve_def)
  have c3: "RingBuffer_ctor max_size alloc_ok 0 = Inr (RingBuffer_new 0 :: 'a RingBuffer)"
    by (simp add: RingBuffer_ctor_def vector_reserve_def)
  have c4: "FastRingBuffer_ctor max_size alloc_ok 0
            = Inr (FastRingBuffer_new 0 :: 'a FastRingBuffer)"
    by (simp add: FastRingBuffer_ctor_def vector_reserve_def)
  have 0: "capacity (RingBuffer_new C :: 'a RingBuffer) = C"
    "capacity (FastRingBuffer_new C :: 'a FastRingBuffer) = C"
    by (simp_all add: RingBuffer_new_def FastRingBuffer_new_def)
  have 1: "capacity s = 0 \<longrightarrow> RingBuffer_Push v s = Inl DivisionByZero"
    by (simp add: RingBuffer_Push_def umod_def)
  have 2: "capacity f = 0 \<longrightarrow> FastRingBuffer_Push v f = Inl DivisionByZero"
    by (simp add: FastRingBuffer_Push_def umod_def)
  have 5: "RingBuffer_Push v (RingBuffer_new 0) = Inl DivisionByZero"
    by (simp add: RingBuffer_Push_def umod_def RingBuffer_new_def)
  have 6: "FastRingBuffer_Push v (FastRingBuffer_new 0) = Inl DivisionByZero"
    by (simp add: FastRingBuffer_Push_def umod_def FastRingBuffer_new_def)
  have 7: "s0 = RingBuffer_new 0 \<and> RingBuffer_Pop s0 = Inr (None, s0)"
    if "rb_run cs (RingBuffer_new 0) = Inr (rs, s0)"
    using rb_run_capacity_zero [OF that] by (simp add: RingBuffer_Pop_def RingBuffer_new_def)
  have 8: "f0 = FastRingBuffer_new 0 \<and> FastRingBuffer_Pop f0 = Inr (None, f0)"
    if "frb_run cs (FastRingBuffer_new 0) = Inr (rs, f0)"
    using frb_run_capacity_zero [OF that]
    by (simp add: FastRingBuffer_Pop_def FastRingBuffer_new_def)
  have 9: "RingBuffer_Push v s \<noteq> Inl DivisionByZero \<and> RingBuffer_Pop s \<noteq> Inl DivisionByZero"
    if "capacity s \<noteq> 0"
    using that by (simp add: RingBuffer_Push_def RingBuffer_Pop_def umod_def Let_def)
  have 10: "FastRingBuffer_Push v f \<noteq> Inl DivisionByZero \<and>
            FastRingBuffer_Pop f \<noteq> Inl DivisionByZero"
    if "capacity f \<noteq> 0"
    using that
    by (simp add: FastRingBuffer_Push_def FastRingBuffer_Pop_def FastRingBuffer_publish_def
        FastRingBuffer_consume_def umod_def Let_def)
  note z = rb_run_capacity_zero_calls [of cs] frb_run_capacity_zero_calls [of cs]
  note tot = rb_run_total [of C cs] frb_run_total [of C cs]
  note one = rb_run_capacity_one [of cs] frb_run_capacity_one [of cs]
  show ?thesis
    apply (intro conjI)
    apply (rule c1)
    apply (rule c2)
    apply (rule c3)
    apply (rule c4)
    apply (rule 0)
    apply (rule 0)
    apply (rule 1)
    apply (rule 2)
    apply (rule 5)
    apply (rule 6)
    apply (rule z)
    apply (rule z)
    using 7 apply blast
    using 8 apply blast
    using 9 apply blast
    using 10 apply blast
    using tot apply blast
    apply (rule one)
    apply (rule one)
    done
qed

theorem ring_buffer_capacity_zero_and_one_witness:
  "(RingBuffer_ctor 9223372036854775807 True 0 :: error + nat RingBuffer)
     = Inr (RingBuffer_new 0) \<and>
   (RingBuffer_ctor 9223372036854775807 True 3 :: error + nat RingBuffer)
     = Inr (RingBuffer_new 3) \<and>
   RingBuffer_Push (7::nat) (RingBuffer_new 0) = Inl DivisionByZero \<and>
   FastRingBuffer_Push (7::nat) (FastRingBuffer_new 0) = Inl DivisionByZero \<and>
   rb_run [CallPop, CallPop] (RingBuffer_new 0 :: nat RingBuffer)
     = Inr ([PopResult None, PopResult None], RingBuffer_new 0) \<and>
   frb_run [CallPop, CallPop] (FastRingBuffer_new 0 :: nat FastRingBuffer)
     = Inr ([PopResult None, PopResult None], FastRingBuffer_new 0) \<and>
   RingBuffer_Pop (RingBuffer_new 0 :: nat RingBuffer) = Inr (None, RingBuffer_new 0) \<and>
   FastRingBuffer_Pop (FastRingBuffer_new 0 :: nat FastRingBuffer)
     = Inr (None, FastRingBuffer_new 0) \<and>
   rb_run [CallPop, CallPush (7::nat), CallPop] (RingBuffer_new 0) = Inl DivisionByZero \<and>
   RingBuffer_Pop \<lparr>data = [7::nat], capacity = 2, readIdx = 0, writeIdx = 1\<rparr>
     \<noteq> Inl DivisionByZero \<and>
   FastRingBuffer_Pop \<lparr>data = [7::nat], capacity = 2, readIdx = 0, writeIdx = 1,
                        writeIdxCached = 0, readIdxCached = 0\<rparr> \<noteq> Inl DivisionByZero \<and>
   (\<exists>rs s'. rb_run [CallPush (7::nat), CallPop, CallPop] (RingBuffer_new 2) = Inr (rs, s')) \<and>
   (\<exists>rs f'. frb_run [CallPush (7::nat), CallPop, CallPop] (FastRingBuffer_new 2) = Inr (rs, f')) \<and>
   rb_run [CallPush (7::nat), CallPop, CallPop] (RingBuffer_new 1)
     = Inr ([PushResult False, PopResult None, PopResult None], RingBuffer_new 1)"
proof -
  let ?s0 = "\<lparr>data = [] :: nat list, capacity = 0, readIdx = 0, writeIdx = 0\<rparr>"
  let ?f0 = "\<lparr>data = [] :: nat list, capacity = 0, readIdx = 0, writeIdx = 0,
              writeIdxCached = 0, readIdxCached = 0\<rparr>"
  let ?s2 = "\<lparr>data = [7::nat], capacity = 2, readIdx = 0, writeIdx = 1\<rparr>"
  let ?f2 = "\<lparr>data = [7::nat], capacity = 2, readIdx = 0, writeIdx = 1,
              writeIdxCached = 0, readIdxCached = 0\<rparr>"
  let ?cs = "[CallPush (7::nat), CallPop, CallPop]"
  let ?pp = "[CallPop, CallPop] :: nat rb_call list"
  let ?pq = "[CallPop, CallPush (7::nat), CallPop]"
  have h0: "capacity ?s0 = 0" "capacity ?f0 = 0" by simp_all
  have h7: "rb_run ?pp (RingBuffer_new 0 :: nat RingBuffer)
            = Inr ([PopResult None, PopResult None], RingBuffer_new 0)"
    by (simp add: RingBuffer_Pop_def RingBuffer_new_def)
  have h8: "frb_run ?pp (FastRingBuffer_new 0 :: nat FastRingBuffer)
            = Inr ([PopResult None, PopResult None], FastRingBuffer_new 0)"
    by (simp add: FastRingBuffer_Pop_def FastRingBuffer_new_def)
  have h9: "capacity ?s2 \<noteq> 0" "capacity ?f2 \<noteq> 0" by simp_all
  have hC: "(2::size_t) \<noteq> 0" "(3::size_t) \<noteq> 0"
    "\<not> (9223372036854775807::nat) < unat (3::size_t)" by simp_all
  have m: "map refused ?cs = [PushResult False, PopResult None, PopResult None]"
    by (simp add: refused_def)
  have e: "list_ex is_push ?pq" "\<not> list_ex is_push ?pp" by simp_all
  note t1 = ring_buffer_capacity_zero_and_one
    [of 9223372036854775807 True 3 ?s0 7 ?f0 ?pp "[PopResult None, PopResult None]"
      "RingBuffer_new 0" "FastRingBuffer_new 0"]
  note t2 = ring_buffer_capacity_zero_and_one
    [of 9223372036854775807 True 2 ?s2 7 ?f2 ?cs "[]" "RingBuffer_new 0" "FastRingBuffer_new 0"]
  note t3 = ring_buffer_capacity_zero_and_one
    [of 9223372036854775807 True 2 ?s2 7 ?f2 ?pq "[]" "RingBuffer_new 0" "FastRingBuffer_new 0"]
  have a: "(RingBuffer_ctor 9223372036854775807 True 0 :: error + nat RingBuffer)
     = Inr (RingBuffer_new 0)" using t1 by blast
  have b: "(RingBuffer_ctor 9223372036854775807 True 3 :: error + nat RingBuffer)
     = Inr (RingBuffer_new 3)" using t1 [THEN conjunct1] by simp
  have c: "RingBuffer_Push (7::nat) (RingBuffer_new 0) = Inl DivisionByZero"
    "FastRingBuffer_Push (7::nat) (FastRingBuffer_new 0) = Inl DivisionByZero"
    using t1 by blast+
  have d: "RingBuffer_Pop (RingBuffer_new 0 :: nat RingBuffer) = Inr (None, RingBuffer_new 0)"
    "FastRingBuffer_Pop (FastRingBuffer_new 0 :: nat FastRingBuffer)
     = Inr (None, FastRingBuffer_new 0)"
    using t1 h7 h8 by blast+
  have f: "rb_run ?pq (RingBuffer_new 0) = Inl DivisionByZero"
    using t3 [THEN conjunct2, THEN conjunct2, THEN conjunct2, THEN conjunct2, THEN conjunct2,
        THEN conjunct2, THEN conjunct2, THEN conjunct2, THEN conjunct2, THEN conjunct2,
        THEN conjunct1]
    by simp
  have g: "RingBuffer_Pop ?s2 \<noteq> Inl DivisionByZero" "FastRingBuffer_Pop ?f2 \<noteq> Inl DivisionByZero"
    using t2 h9 by blast+
  have h: "\<exists>rs s'. rb_run ?cs (RingBuffer_new 2) = Inr (rs, s')"
    "\<exists>rs f'. frb_run ?cs (FastRingBuffer_new 2) = Inr (rs, f')"
    using t2 hC by blast+
  have i: "rb_run ?cs (RingBuffer_new 1)
     = Inr ([PushResult False, PopResult None, PopResult None], RingBuffer_new 1)"
    using t2 unfolding m by blast
  show ?thesis using a b c h7 h8 d f g h i by blast
qed

text \<open>
  Against "the error branch is reachable in Pop": on a buffer constructed with
  capacity 0, \<^verbatim>\<open>Pop\<close> returns empty, again and again, and the call that divides by
  zero is \<^verbatim>\<open>Push\<close>. Against "the constructors accept any capacity": with
  \<^verbatim>\<open>max_size()\<close> at \<open>2\<^sup>6\<^sup>3 - 1\<close>, its value for one-byte elements, the largest
  \<^verbatim>\<open>size_t\<close> is refused with \<^verbatim>\<open>std::length_error\<close>.
\<close>

theorem ring_buffer_capacity_zero_and_one_counterexample:
  "RingBuffer_Pop (RingBuffer_new 0 :: nat RingBuffer) = Inr (None, RingBuffer_new 0) \<and>
   FastRingBuffer_Pop (FastRingBuffer_new 0 :: nat FastRingBuffer)
     = Inr (None, FastRingBuffer_new 0) \<and>
   rb_run [CallPop, CallPop] (RingBuffer_new 0 :: nat RingBuffer)
     = Inr ([PopResult None, PopResult None], RingBuffer_new 0) \<and>
   frb_run [CallPop, CallPop] (FastRingBuffer_new 0 :: nat FastRingBuffer)
     = Inr ([PopResult None, PopResult None], FastRingBuffer_new 0) \<and>
   rb_apply (CallPush (7::nat)) (RingBuffer_new 0) = Inl DivisionByZero \<and>
   frb_apply (CallPush (7::nat)) (FastRingBuffer_new 0) = Inl DivisionByZero \<and>
   (RingBuffer_ctor 9223372036854775807 True 18446744073709551615 :: error + nat RingBuffer)
     = Inl LengthError \<and>
   (FastRingBuffer_ctor 9223372036854775807 True 18446744073709551615
      :: error + nat FastRingBuffer) = Inl LengthError"
  by (simp add: RingBuffer_new_def FastRingBuffer_new_def RingBuffer_Pop_def
      FastRingBuffer_Pop_def RingBuffer_Push_def FastRingBuffer_Push_def umod_def
      RingBuffer_ctor_def FastRingBuffer_ctor_def vector_reserve_def)

section \<open>TTAS spinlock\<close>

lemma TASSpinLock_try_lock_held:
  "locked s \<Longrightarrow> TASSpinLock_try_lock spurious s = (False, s)"
  by (simp add: TASSpinLock_try_lock_def TryCompareExchange_def compare_exchange_weak_def)

lemma TASSpinLock_try_lock_unheld:
  "\<not> locked s \<Longrightarrow> TASSpinLock_try_lock spurious s = (\<not> spurious, s\<lparr>locked := \<not> spurious\<rparr>)"
  by (simp add: TASSpinLock_try_lock_def TryCompareExchange_def compare_exchange_weak_def)

lemma TASSpinLock_lock_first_attempt:
  "\<not> locked s \<Longrightarrow> \<not> spurious n \<Longrightarrow>
   TASSpinLock_lock spurious n s = Some (snd (TASSpinLock_try_lock False s))"
  by (subst TASSpinLock_lock.simps)
    (simp add: TASSpinLock_try_lock_def TryCompareExchange_def compare_exchange_weak_def)

text \<open>
  Claim C6. \<^verbatim>\<open>try_lock\<close> on a held lock returns false and changes nothing
  (\<open>TASSpinLock_try_lock_held\<close>), and a successful \<^verbatim>\<open>try_lock\<close> leaves the flag
  as a successful \<^verbatim>\<open>lock\<close> does (\<open>TASSpinLock_lock_first_attempt\<close>). But
  \<^verbatim>\<open>try_lock\<close> is one \<^verbatim>\<open>compare_exchange_weak\<close>, so on a lock that nobody holds
  it returns false, and leaves the lock free, when the exchange fails spuriously.
\<close>

theorem TASSpinLock_try_lock_spurious_failure:
  "TASSpinLock_try_lock True TASSpinLock_init = (False, TASSpinLock_init)"
  by (simp add: TASSpinLock_try_lock_def TryCompareExchange_def compare_exchange_weak_def
      TASSpinLock_init_def)

lemma spin_while_locked_Some:
  assumes "spin_while_locked s = Some y"
  shows "\<not> locked s"
  by (rule spin_while_locked.raw_induct [where P = "\<lambda>s y. \<not> locked s", OF _ assms])
    (auto split: if_splits)

lemma spin_while_locked_held: "locked s \<Longrightarrow> spin_while_locked s = None"
  using spin_while_locked_Some [of s] by (cases "spin_while_locked s") auto

lemma TASSpinLock_lock_held: "locked s \<Longrightarrow> TASSpinLock_lock spurious n s = None"
  by (subst TASSpinLock_lock.simps)
    (simp add: TryCompareExchange_def compare_exchange_weak_def spin_while_locked_held)

section \<open>Ticket lock\<close>

subsection \<open>The counters under interleaved threads\<close>

lemma tl_init_inv: "tl_inv 0 tl_init"
  by (simp add: tl_inv_def tl_init_def TicketLock_init_def)

lemma unat_ticket_succ:
  fixes x :: Ticket
  assumes "unat x \<le> n" "Suc n < 2 ^ 64"
  shows "unat (x + 1) = Suc (unat x)"
  using assms by (simp add: unat_word_ariths)

lemma tl_invD:
  assumes "tl_inv n s"
  shows "unat (owner_ticket (shared s)) \<le> unat (next_free_ticket (shared s))"
    and "unat (next_free_ticket (shared s)) \<le> n"
    and "\<And>i t. drawn (pc s i) = Some t \<Longrightarrow> unat (owner_ticket (shared s)) \<le> unat t"
    and "\<And>i t. drawn (pc s i) = Some t \<Longrightarrow> unat t < unat (next_free_ticket (shared s))"
    and "\<And>i j t. drawn (pc s i) = Some t \<Longrightarrow> drawn (pc s j) = Some t \<Longrightarrow> i = j"
    and "\<And>i t. pc s i = Holding t \<Longrightarrow> t = owner_ticket (shared s)"
    and "\<And>i c. pc s i = TryLoaded c \<Longrightarrow> unat c \<le> unat (owner_ticket (shared s))"
  using assms unfolding tl_inv_def by blast+

lemma tl_invI:
  assumes "unat (owner_ticket (shared s)) \<le> unat (next_free_ticket (shared s))"
    and "unat (next_free_ticket (shared s)) \<le> n"
    and "\<And>i t. drawn (pc s i) = Some t \<Longrightarrow> unat (owner_ticket (shared s)) \<le> unat t"
    and "\<And>i t. drawn (pc s i) = Some t \<Longrightarrow> unat t < unat (next_free_ticket (shared s))"
    and "\<And>i j t. drawn (pc s i) = Some t \<Longrightarrow> drawn (pc s j) = Some t \<Longrightarrow> i = j"
    and "\<And>i t. pc s i = Holding t \<Longrightarrow> t = owner_ticket (shared s)"
    and "\<And>i c. pc s i = TryLoaded c \<Longrightarrow> unat c \<le> unat (owner_ticket (shared s))"
  shows "tl_inv n s"
  using assms unfolding tl_inv_def by blast

lemma tl_inv_LockDraw:
  assumes inv: "tl_inv n s" and n: "Suc n < 2 ^ 64" and st: "tl_next (LockDraw i) s = Some s'"
  shows "tl_inv (Suc n) s'"
proof -
  note I = tl_invD [OF inv]
  let ?N = "next_free_ticket (shared s)"
  have nx: "unat (?N + 1) = Suc (unat ?N)"
    using I(2) n by (rule unat_ticket_succ)
  from st have idle: "pc s i = Idle"
    and s': "s' = \<lparr>shared = (shared s)\<lparr>next_free_ticket := ?N + 1\<rparr>,
                    pc = (pc s)(i := LockSpin ?N)\<rparr>"
    by (auto simp: TicketLock_lock_draw_def fetch_add_def split: tl_pc.splits)
  show ?thesis
  proof (rule tl_invI)
    show "unat (owner_ticket (shared s')) \<le> unat (next_free_ticket (shared s'))"
      using I(1) nx by (simp add: s')
    show "unat (next_free_ticket (shared s')) \<le> Suc n"
      using I(2) nx by (simp add: s')
    show "unat (owner_ticket (shared s')) \<le> unat t" if "drawn (pc s' k) = Some t" for k t
      using that I(1) I(3) [of k t] by (auto simp: s' split: if_splits)
    show "unat t < unat (next_free_ticket (shared s'))" if "drawn (pc s' k) = Some t" for k t
      using that I(4) [of k t] nx by (auto simp: s' split: if_splits)
    show "k = j" if "drawn (pc s' k) = Some t" "drawn (pc s' j) = Some t" for k j t
      using that I(5) [of k t j] I(4) [of k t] I(4) [of j t]
      by (auto simp: s' split: if_splits)
    show "t = owner_ticket (shared s')" if "pc s' k = Holding t" for k t
      using that I(6) [of k t] by (auto simp: s' split: if_splits)
    show "unat c \<le> unat (owner_ticket (shared s'))" if "pc s' k = TryLoaded c" for k c
      using that I(7) [of k c] by (auto simp: s' split: if_splits)
  qed
qed

lemma tl_inv_mono: "tl_inv n s \<Longrightarrow> n \<le> m \<Longrightarrow> tl_inv m s"
  unfolding tl_inv_def by simp

lemma tl_inv_LockRead:
  assumes inv: "tl_inv n s" and st: "tl_next (LockRead i) s = Some s'"
  shows "tl_inv n s'"
proof -
  note I = tl_invD [OF inv]
  from st obtain t where spin: "pc s i = LockSpin t"
    and s': "s' = (if t \<noteq> owner_ticket (shared s) then s else s\<lparr>pc := (pc s)(i := Holding t)\<rparr>)"
    by (auto simp: TicketLock_lock_spins_def split: tl_pc.splits)
  show ?thesis
  proof (cases "t = owner_ticket (shared s)")
    case False
    then show ?thesis using inv s' by simp
  next
    case True
    then have s'': "s' = s\<lparr>pc := (pc s)(i := Holding t)\<rparr>" using s' by simp
    have dr: "drawn (pc s' k) = drawn (pc s k)" for k
      using spin by (simp add: s'')
    show ?thesis
    proof (rule tl_invI)
      show "unat (owner_ticket (shared s')) \<le> unat (next_free_ticket (shared s'))"
        using I(1) by (simp add: s'')
      show "unat (next_free_ticket (shared s')) \<le> n"
        using I(2) by (simp add: s'')
      show "unat (owner_ticket (shared s')) \<le> unat u" if "drawn (pc s' k) = Some u" for k u
        using that I(3) [of k u] unfolding dr by (simp add: s'')
      show "unat u < unat (next_free_ticket (shared s'))" if "drawn (pc s' k) = Some u" for k u
        using that I(4) [of k u] unfolding dr by (simp add: s'')
      show "k = j" if "drawn (pc s' k) = Some u" "drawn (pc s' j) = Some u" for k j u
        using that I(5) [of k u j] unfolding dr by simp
      show "u = owner_ticket (shared s')" if "pc s' k = Holding u" for k u
        using that I(6) [of k u] True by (auto simp: s'' split: if_splits)
      show "unat c \<le> unat (owner_ticket (shared s'))" if "pc s' k = TryLoaded c" for k c
        using that I(7) [of k c] by (auto simp: s'' split: if_splits)
    qed
  qed
qed

lemma tl_inv_TryLoad:
  assumes inv: "tl_inv n s" and st: "tl_next (TryLoad i) s = Some s'"
  shows "tl_inv n s'"
proof -
  note I = tl_invD [OF inv]
  from st have idle: "pc s i = Idle"
    and s': "s' = s\<lparr>pc := (pc s)(i := TryLoaded (owner_ticket (shared s)))\<rparr>"
    by (auto simp: TicketLock_try_lock_load_def split: tl_pc.splits)
  have dr: "drawn (pc s' k) = drawn (pc s k)" for k
    using idle by (simp add: s')
  show ?thesis
  proof (rule tl_invI)
    show "unat (owner_ticket (shared s')) \<le> unat (next_free_ticket (shared s'))"
      using I(1) by (simp add: s')
    show "unat (next_free_ticket (shared s')) \<le> n"
      using I(2) by (simp add: s')
    show "unat (owner_ticket (shared s')) \<le> unat u" if "drawn (pc s' k) = Some u" for k u
      using that I(3) [of k u] unfolding dr by (simp add: s')
    show "unat u < unat (next_free_ticket (shared s'))" if "drawn (pc s' k) = Some u" for k u
      using that I(4) [of k u] unfolding dr by (simp add: s')
    show "k = j" if "drawn (pc s' k) = Some u" "drawn (pc s' j) = Some u" for k j u
      using that I(5) [of k u j] unfolding dr by simp
    show "u = owner_ticket (shared s')" if "pc s' k = Holding u" for k u
      using that I(6) [of k u] by (auto simp: s' split: if_splits)
    show "unat c \<le> unat (owner_ticket (shared s'))" if "pc s' k = TryLoaded c" for k c
      using that I(7) [of k c] by (auto simp: s' split: if_splits)
  qed
qed

lemma TicketLock_try_lock_cas_eq:
  "TicketLock_try_lock_cas c l
   = (next_free_ticket l = c, if next_free_ticket l = c then l\<lparr>next_free_ticket := c + 1\<rparr> else l)"
  by (simp add: TicketLock_try_lock_cas_def compare_exchange_strong_def)

lemma tl_inv_TryCas:
  assumes inv: "tl_inv n s" and n: "Suc n < 2 ^ 64" and st: "tl_next (TryCas i) s = Some s'"
  shows "tl_inv (Suc n) s'"
proof -
  note I = tl_invD [OF inv]
  let ?N = "next_free_ticket (shared s)"
  let ?O = "owner_ticket (shared s)"
  from st obtain c where ld: "pc s i = TryLoaded c"
    and s': "s' = (if ?N = c
                   then \<lparr>shared = (shared s)\<lparr>next_free_ticket := c + 1\<rparr>,
                         pc = (pc s)(i := Holding c)\<rparr>
                   else \<lparr>shared = shared s, pc = (pc s)(i := Idle)\<rparr>)"
    by (auto simp: TicketLock_try_lock_cas_eq split: tl_pc.splits if_splits)
  show ?thesis
  proof (cases "?N = c")
    case False
    then have s'': "s' = \<lparr>shared = shared s, pc = (pc s)(i := Idle)\<rparr>" using s' by simp
    have dr: "drawn (pc s' k) = drawn (pc s k)" for k
      using ld by (simp add: s'')
    show ?thesis
    proof (rule tl_invI)
      show "unat (owner_ticket (shared s')) \<le> unat (next_free_ticket (shared s'))"
        using I(1) by (simp add: s'')
      show "unat (next_free_ticket (shared s')) \<le> Suc n"
        using I(2) by (simp add: s'')
      show "unat (owner_ticket (shared s')) \<le> unat u" if "drawn (pc s' k) = Some u" for k u
        using that I(3) [of k u] unfolding dr by (simp add: s'')
      show "unat u < unat (next_free_ticket (shared s'))" if "drawn (pc s' k) = Some u" for k u
        using that I(4) [of k u] unfolding dr by (simp add: s'')
      show "k = j" if "drawn (pc s' k) = Some u" "drawn (pc s' j) = Some u" for k j u
        using that I(5) [of k u j] unfolding dr by simp
      show "u = owner_ticket (shared s')" if "pc s' k = Holding u" for k u
        using that I(6) [of k u] by (auto simp: s'' split: if_splits)
      show "unat c' \<le> unat (owner_ticket (shared s'))" if "pc s' k = TryLoaded c'" for k c'
        using that I(7) [of k c'] by (auto simp: s'' split: if_splits)
    qed
  next
    case True
    then have s'': "s' = \<lparr>shared = (shared s)\<lparr>next_free_ticket := ?N + 1\<rparr>,
                          pc = (pc s)(i := Holding ?N)\<rparr>" using s' by simp
    have "unat ?N \<le> unat ?O" using I(7) [OF ld] True by simp
    then have eq: "unat ?O = unat ?N" using I(1) by simp
    then have eqw: "?N = ?O" by (simp add: word_unat_eq_iff)
    have nx: "unat (?N + 1) = Suc (unat ?N)"
      using I(2) n by (rule unat_ticket_succ)
    show ?thesis
    proof (rule tl_invI)
      show "unat (owner_ticket (shared s')) \<le> unat (next_free_ticket (shared s'))"
        using I(1) nx by (simp add: s'')
      show "unat (next_free_ticket (shared s')) \<le> Suc n"
        using I(2) nx by (simp add: s'')
      show "unat (owner_ticket (shared s')) \<le> unat u" if "drawn (pc s' k) = Some u" for k u
        using that I(3) [of k u] eq by (auto simp: s'' split: if_splits)
      show "unat u < unat (next_free_ticket (shared s'))" if "drawn (pc s' k) = Some u" for k u
        using that I(4) [of k u] nx by (auto simp: s'' split: if_splits)
      show "k = j" if "drawn (pc s' k) = Some u" "drawn (pc s' j) = Some u" for k j u
        using that I(5) [of k u j] I(4) [of k u] I(4) [of j u]
        by (auto simp: s'' split: if_splits)
      show "u = owner_ticket (shared s')" if "pc s' k = Holding u" for k u
        using that I(6) [of k u] eqw by (auto simp: s'' split: if_splits)
      show "unat c' \<le> unat (owner_ticket (shared s'))" if "pc s' k = TryLoaded c'" for k c'
        using that I(7) [of k c'] by (auto simp: s'' split: if_splits)
    qed
  qed
qed

lemma tl_inv_Unlock:
  assumes inv: "tl_inv n s" and st: "tl_next (Unlock i) s = Some s'"
  shows "tl_inv n s'"
proof -
  note I = tl_invD [OF inv]
  let ?N = "next_free_ticket (shared s)"
  let ?O = "owner_ticket (shared s)"
  from st obtain t where hd: "pc s i = Holding t"
    and s': "s' = \<lparr>shared = (shared s)\<lparr>owner_ticket := ?O + 1\<rparr>, pc = (pc s)(i := Idle)\<rparr>"
    by (auto simp: TicketLock_unlock_def fetch_add_def split: tl_pc.splits)
  have t: "t = ?O" by (rule I(6) [OF hd])
  have dri: "drawn (pc s i) = Some ?O" using hd t by simp
  have lt: "unat ?O < unat ?N" by (rule I(4) [OF dri])
  have ox: "unat (?O + 1) = Suc (unat ?O)"
    using lt unsigned_less [of ?N, where 'a = nat] by (simp add: unat_word_ariths)
  show ?thesis
  proof (rule tl_invI)
    show "unat (owner_ticket (shared s')) \<le> unat (next_free_ticket (shared s'))"
      using lt ox by (simp add: s')
    show "unat (next_free_ticket (shared s')) \<le> n"
      using I(2) by (simp add: s')
    show "unat (owner_ticket (shared s')) \<le> unat u" if "drawn (pc s' k) = Some u" for k u
    proof -
      from that have k: "k \<noteq> i" and d: "drawn (pc s k) = Some u"
        by (auto simp: s' split: if_splits)
      have "u \<noteq> ?O" using I(5) [OF d, of i] dri k by auto
      then have "unat u \<noteq> unat ?O" by (simp add: word_unat_eq_iff)
      then show ?thesis using I(3) [OF d] ox by (simp add: s')
    qed
    show "unat u < unat (next_free_ticket (shared s'))" if "drawn (pc s' k) = Some u" for k u
      using that I(4) [of k u] by (auto simp: s' split: if_splits)
    show "k = j" if "drawn (pc s' k) = Some u" "drawn (pc s' j) = Some u" for k j u
      using that I(5) [of k u j] by (auto simp: s' split: if_splits)
    show "u = owner_ticket (shared s')" if "pc s' k = Holding u" for k u
    proof -
      from that have k: "k \<noteq> i" and h: "pc s k = Holding u"
        by (auto simp: s' split: if_splits)
      have "u = ?O" by (rule I(6) [OF h])
      then have "drawn (pc s k) = Some ?O" using h by simp
      then have "k = i" using I(5) [of k ?O i] dri by simp
      then show ?thesis using k by simp
    qed
    show "unat c \<le> unat (owner_ticket (shared s'))" if "pc s' k = TryLoaded c" for k c
      using that I(7) [of k c] ox by (auto simp: s' split: if_splits)
  qed
qed

lemma tl_inv_step:
  assumes "tl_inv n s" "Suc n < 2 ^ 64" "tl_next x s = Some s'"
  shows "tl_inv (Suc n) s'"
proof (cases x)
  case (LockDraw i)
  then show ?thesis using tl_inv_LockDraw assms by blast
next
  case (LockRead i)
  then show ?thesis using tl_inv_LockRead [of n s i s'] assms tl_inv_mono [of n s' "Suc n"] by simp
next
  case (TryLoad i)
  then show ?thesis using tl_inv_TryLoad [of n s i s'] assms tl_inv_mono [of n s' "Suc n"] by simp
next
  case (TryCas i)
  then show ?thesis using tl_inv_TryCas assms by blast
next
  case (Unlock i)
  then show ?thesis using tl_inv_Unlock [of n s i s'] assms tl_inv_mono [of n s' "Suc n"] by simp
qed

lemma tl_inv_run:
  "tl_inv n s \<Longrightarrow> n + length xs < 2 ^ 64 \<Longrightarrow> tl_run xs s = Some s' \<Longrightarrow>
   tl_inv (n + length xs) s'"
proof (induction xs arbitrary: n s)
  case Nil
  then show ?case by simp
next
  case (Cons x xs)
  from Cons.prems(3) obtain s1 where 1: "tl_next x s = Some s1" and 2: "tl_run xs s1 = Some s'"
    by (auto split: option.splits)
  have "tl_inv (Suc n) s1"
    using Cons.prems(1) _ 1 by (rule tl_inv_step) (use Cons.prems(2) in simp)
  from Cons.IH [OF this _ 2] Cons.prems(2) show ?case by simp
qed

lemma tl_run_append:
  "tl_run (xs @ ys) s = (case tl_run xs s of None \<Rightarrow> None | Some s' \<Rightarrow> tl_run ys s')"
  by (induction xs arbitrary: s) (auto split: option.splits)

lemma tl_uncontended_round:
  "tl_run [LockDraw 0, LockRead 0, Unlock 0]
     \<lparr>shared = \<lparr>next_free_ticket = k, owner_ticket = k\<rparr>, pc = (\<lambda>i. Idle)\<rparr>
   = Some \<lparr>shared = \<lparr>next_free_ticket = k + 1, owner_ticket = k + 1\<rparr>, pc = (\<lambda>i. Idle)\<rparr>"
proof -
  have "(\<lambda>i::nat. Idle)(0 := Idle) = (\<lambda>i. Idle)" by (rule ext) simp
  then show ?thesis
    by (simp add: TicketLock_lock_draw_def TicketLock_lock_spins_def TicketLock_unlock_def
        fetch_add_def)
qed

lemma tl_uncontended_rounds:
  "tl_run (concat (replicate n [LockDraw 0, LockRead 0, Unlock 0]))
     \<lparr>shared = \<lparr>next_free_ticket = k, owner_ticket = k\<rparr>, pc = (\<lambda>i. Idle)\<rparr>
   = Some \<lparr>shared = \<lparr>next_free_ticket = k + of_nat n, owner_ticket = k + of_nat n\<rparr>,
           pc = (\<lambda>i. Idle)\<rparr>"
proof (induction n arbitrary: k)
  case 0
  then show ?case by simp
next
  case (Suc n)
  have "tl_run (concat (replicate (Suc n) [LockDraw 0, LockRead 0, Unlock 0]))
          \<lparr>shared = \<lparr>next_free_ticket = k, owner_ticket = k\<rparr>, pc = (\<lambda>i. Idle)\<rparr>
        = tl_run (concat (replicate n [LockDraw 0, LockRead 0, Unlock 0]))
          \<lparr>shared = \<lparr>next_free_ticket = k + 1, owner_ticket = k + 1\<rparr>, pc = (\<lambda>i. Idle)\<rparr>"
    using tl_uncontended_round [of k]
    by (simp only: replicate_Suc concat.simps tl_run_append option.case)
  also have "\<dots> = Some \<lparr>shared = \<lparr>next_free_ticket = k + 1 + of_nat n,
                                 owner_ticket = k + 1 + of_nat n\<rparr>, pc = (\<lambda>i. Idle)\<rparr>"
    by (rule Suc.IH)
  finally show ?case by (simp add: add.assoc)
qed

lemma tl_wrapped:
  "map_option (tl_view [0])
     (tl_run (concat (replicate (2 ^ 64 - 1) [LockDraw 0, LockRead 0, Unlock 0]) @ [LockDraw 0])
        tl_init)
   = Some (0, - 1, [LockSpin (- 1)])"
proof -
  have "(of_nat (2 ^ 64 - 1) :: Ticket) = - 1" by simp
  then show ?thesis
    using tl_uncontended_rounds [of "2 ^ 64 - 1" 0]
    by (simp add: tl_run_append tl_init_def TicketLock_init_def tl_view_def
        TicketLock_lock_draw_def fetch_add_def)
qed

lemma tl_reachable_inv:
  assumes "length xs < 2 ^ 64" and "tl_run xs tl_init = Some s"
  shows "tl_inv (length xs) s"
  using tl_inv_run [OF tl_init_inv _ assms(2)] assms(1) by simp

lemma drawn_cases:
  "drawn p = Some t \<Longrightarrow> p = LockSpin t \<or> p = Holding t"
  by (cases p) simp_all

text \<open>
  Claim C7. In every state reached from the initial lock by fewer than \<open>2\<^sup>6\<^sup>4\<close>
  atomic steps of \<^verbatim>\<open>lock\<close>, \<^verbatim>\<open>try_lock\<close> and \<^verbatim>\<open>unlock\<close> of any threads: the
  owner ticket is at most the next free ticket; a thread that holds the lock has
  the owner ticket as its drawn ticket; a thread whose drawn ticket is the owner
  ticket holds the lock or is in \<^verbatim>\<open>lock\<close> and leaves its spin loop at its next
  read; at most one thread has the owner ticket, and at most one holds the lock.
\<close>

theorem TicketLock_invariant:
  assumes "length xs < 2 ^ 64" and "tl_run xs tl_init = Some s"
  shows "owner_ticket (shared s) \<le> next_free_ticket (shared s) \<and>
         (\<forall>i. holds (pc s i) \<longrightarrow> drawn (pc s i) = Some (owner_ticket (shared s))) \<and>
         (\<forall>i. drawn (pc s i) = Some (owner_ticket (shared s)) \<longrightarrow>
              holds (pc s i) \<or>
              tl_next (LockRead i) s
                = Some (s\<lparr>pc := (pc s)(i := Holding (owner_ticket (shared s)))\<rparr>)) \<and>
         (\<forall>i j. drawn (pc s i) = Some (owner_ticket (shared s)) \<and>
                drawn (pc s j) = Some (owner_ticket (shared s)) \<longrightarrow> i = j) \<and>
         (\<forall>i j. holds (pc s i) \<and> holds (pc s j) \<longrightarrow> i = j)"
proof -
  note I = tl_invD [OF tl_reachable_inv [OF assms]]
  let ?O = "owner_ticket (shared s)"
  have 1: "?O \<le> next_free_ticket (shared s)"
    using I(1) by (simp add: word_le_nat_alt)
  have 2: "drawn (pc s i) = Some ?O" if "holds (pc s i)" for i
  proof (cases "pc s i")
    case (Holding t)
    then show ?thesis using I(6) [of i t] by simp
  qed (use that in simp_all)
  have 3: "holds (pc s i) \<or>
           tl_next (LockRead i) s = Some (s\<lparr>pc := (pc s)(i := Holding ?O)\<rparr>)"
    if "drawn (pc s i) = Some ?O" for i
    using drawn_cases [OF that] by (auto simp: TicketLock_lock_spins_def)
  have 4: "i = j" if "drawn (pc s i) = Some ?O" "drawn (pc s j) = Some ?O" for i j
    using that by (rule I(5))
  have 5: "i = j" if "holds (pc s i)" "holds (pc s j)" for i j
    using 2 [OF that(1)] 2 [OF that(2)] by (rule 4)
  show ?thesis using 1 2 3 4 5 by blast
qed

theorem TicketLock_invariant_witness:
  "map_option (tl_view [0, 1]) (tl_run [LockDraw 0, LockRead 0, LockDraw 1, Unlock 0] tl_init)
     = Some (2, 1, [Idle, LockSpin 1]) \<and>
   (1::Ticket) \<le> 2 \<and>
   map_option (tl_view [0, 1])
     (tl_run [LockDraw 0, LockRead 0, LockDraw 1, Unlock 0, LockRead 1] tl_init)
     = Some (2, 1, [Idle, Holding 1])"
proof -
  let ?xs = "[LockDraw 0, LockRead 0, LockDraw 1, Unlock 0]"
  have h1: "length ?xs < 2 ^ 64" by simp
  have c1: "map_option (tl_view [0, 1]) (tl_run ?xs tl_init) = Some (2, 1, [Idle, LockSpin 1])"
    by (simp add: tl_init_def TicketLock_init_def TicketLock_lock_draw_def
        TicketLock_lock_spins_def TicketLock_unlock_def fetch_add_def tl_view_def)
  have c2: "map_option (tl_view [0, 1]) (tl_run (?xs @ [LockRead 1]) tl_init)
            = Some (2, 1, [Idle, Holding 1])"
    by (simp add: tl_init_def TicketLock_init_def TicketLock_lock_draw_def
        TicketLock_lock_spins_def TicketLock_unlock_def fetch_add_def tl_view_def)
  have c3: "(1::Ticket) \<le> 2" by simp
  have h1': "length (?xs @ [LockRead 1]) < 2 ^ 64" by simp
  from c1 obtain s where h2: "tl_run ?xs tl_init = Some s" by blast
  from c2 obtain s' where h2': "tl_run (?xs @ [LockRead 1]) tl_init = Some s'" by blast
  from TicketLock_invariant [OF h1 h2] TicketLock_invariant [OF h1' h2'] c1 c2 c3
  show ?thesis by simp
qed

text \<open>
  Two executions against the invariant as the data model words it. After thread 0
  has released the lock that thread 1 waits for, thread 1 has the owner ticket
  but is still inside \<^verbatim>\<open>lock\<close>, which has not read the owner ticket again. After
  \<open>2\<^sup>6\<^sup>4 - 1\<close> uncontended rounds, one more draw wraps the next free ticket
  around to 0, below the owner ticket.
\<close>

theorem TicketLock_invariant_counterexample:
  "map_option (tl_view [0, 1]) (tl_run [LockDraw 0, LockRead 0, LockDraw 1, Unlock 0] tl_init)
     = Some (2, 1, [Idle, LockSpin 1]) \<and>
   drawn (LockSpin 1) = Some 1 \<and> \<not> holds (LockSpin 1) \<and>
   map_option (tl_view [0])
     (tl_run (concat (replicate (2 ^ 64 - 1) [LockDraw 0, LockRead 0, Unlock 0]) @ [LockDraw 0])
        tl_init)
     = Some (0, - 1, [LockSpin (- 1)]) \<and>
   \<not> (- 1 :: Ticket) \<le> 0"
proof -
  have 1: "map_option (tl_view [0, 1])
             (tl_run [LockDraw 0, LockRead 0, LockDraw 1, Unlock 0] tl_init)
           = Some (2, 1, [Idle, LockSpin 1])"
    by (simp add: tl_init_def TicketLock_init_def TicketLock_lock_draw_def
        TicketLock_lock_spins_def TicketLock_unlock_def fetch_add_def tl_view_def)
  have 2: "drawn (LockSpin 1) = Some 1" by simp
  have 3: "\<not> holds (LockSpin 1)" by simp
  have 4: "\<not> (- 1 :: Ticket) \<le> 0" by simp
  show ?thesis using 1 2 3 4 tl_wrapped by blast
qed

lemma tl_full_step:
  assumes inv: "tl_inv n s" and full: "tl_full s" and n: "Suc n < 2 ^ 64"
    and st: "tl_next x s = Some s'"
  shows "tl_full s'"
proof -
  note I = tl_invD [OF inv]
  let ?N = "next_free_ticket (shared s)"
  let ?O = "owner_ticket (shared s)"
  have F: "\<exists>i. drawn (pc s i) = Some (of_nat k)" if "unat ?O \<le> k" "k < unat ?N" for k
    using full that by (auto simp: tl_full_def)
  have nx: "unat (?N + 1) = Suc (unat ?N)" using I(2) n by (rule unat_ticket_succ)
  show ?thesis
  proof (cases x)
    case (LockDraw i)
    with st have idle: "pc s i = Idle"
      and s': "s' = \<lparr>shared = (shared s)\<lparr>next_free_ticket := ?N + 1\<rparr>,
                      pc = (pc s)(i := LockSpin ?N)\<rparr>"
      by (auto simp: TicketLock_lock_draw_def fetch_add_def split: tl_pc.splits)
    show ?thesis unfolding tl_full_def
    proof (intro allI impI)
      fix k assume k: "unat (owner_ticket (shared s')) \<le> k \<and> k < unat (next_free_ticket (shared s'))"
      show "\<exists>j. drawn (pc s' j) = Some (of_nat k)"
      proof (cases "k = unat ?N")
        case True
        then show ?thesis by (auto simp: s' intro!: exI [of _ i])
      next
        case False
        then obtain j where j: "drawn (pc s j) = Some (of_nat k)"
          using F [of k] k nx by (auto simp: s')
        then have "j \<noteq> i" using idle by auto
        then show ?thesis using j by (auto simp: s' intro!: exI [of _ j])
      qed
    qed
  next
    case (LockRead i)
    with st obtain t where spin: "pc s i = LockSpin t"
      and s': "s' = (if t \<noteq> ?O then s else s\<lparr>pc := (pc s)(i := Holding t)\<rparr>)"
      by (auto simp: TicketLock_lock_spins_def split: tl_pc.splits)
    have "drawn (pc s' k) = drawn (pc s k)" for k using spin by (simp add: s')
    moreover have "shared s' = shared s" by (simp add: s')
    ultimately show ?thesis using full by (simp add: tl_full_def)
  next
    case (TryLoad i)
    with st have idle: "pc s i = Idle"
      and s': "s' = s\<lparr>pc := (pc s)(i := TryLoaded ?O)\<rparr>"
      by (auto simp: TicketLock_try_lock_load_def split: tl_pc.splits)
    have "drawn (pc s' k) = drawn (pc s k)" for k using idle by (simp add: s')
    moreover have "shared s' = shared s" by (simp add: s')
    ultimately show ?thesis using full by (simp add: tl_full_def)
  next
    case (TryCas i)
    with st obtain c where ld: "pc s i = TryLoaded c"
      and s': "s' = (if ?N = c
                     then \<lparr>shared = (shared s)\<lparr>next_free_ticket := c + 1\<rparr>,
                           pc = (pc s)(i := Holding c)\<rparr>
                     else \<lparr>shared = shared s, pc = (pc s)(i := Idle)\<rparr>)"
      by (auto simp: TicketLock_try_lock_cas_eq split: tl_pc.splits if_splits)
    show ?thesis
    proof (cases "?N = c")
      case False
      then have "drawn (pc s' k) = drawn (pc s k)" for k using ld by (simp add: s')
      moreover have "shared s' = shared s" using False by (simp add: s')
      ultimately show ?thesis using full by (simp add: tl_full_def)
    next
      case True
      then have s'': "s' = \<lparr>shared = (shared s)\<lparr>next_free_ticket := ?N + 1\<rparr>,
                            pc = (pc s)(i := Holding ?N)\<rparr>" using s' by simp
      show ?thesis unfolding tl_full_def
      proof (intro allI impI)
        fix k assume k: "unat (owner_ticket (shared s')) \<le> k \<and> k < unat (next_free_ticket (shared s'))"
        show "\<exists>j. drawn (pc s' j) = Some (of_nat k)"
        proof (cases "k = unat ?N")
          case True
          then show ?thesis by (auto simp: s'' intro!: exI [of _ i])
        next
          case False
          then obtain j where j: "drawn (pc s j) = Some (of_nat k)"
            using F [of k] k nx by (auto simp: s'')
          then have "j \<noteq> i" using ld by auto
          then show ?thesis using j by (auto simp: s'' intro!: exI [of _ j])
        qed
      qed
    qed
  next
    case (Unlock i)
    with st obtain t where hd: "pc s i = Holding t"
      and s': "s' = \<lparr>shared = (shared s)\<lparr>owner_ticket := ?O + 1\<rparr>, pc = (pc s)(i := Idle)\<rparr>"
      by (auto simp: TicketLock_unlock_def fetch_add_def split: tl_pc.splits)
    have t: "t = ?O" by (rule I(6) [OF hd])
    have dri: "drawn (pc s i) = Some ?O" using hd t by simp
    have lt: "unat ?O < unat ?N" by (rule I(4) [OF dri])
    have ox: "unat (?O + 1) = Suc (unat ?O)"
      using lt unsigned_less [of ?N, where 'a = nat] by (simp add: unat_word_ariths)
    show ?thesis unfolding tl_full_def
    proof (intro allI impI)
      fix k assume k: "unat (owner_ticket (shared s')) \<le> k \<and> k < unat (next_free_ticket (shared s'))"
      then have k': "Suc (unat ?O) \<le> k" "k < unat ?N" using ox by (simp_all add: s')
      then obtain j where j: "drawn (pc s j) = Some (of_nat k)" using F [of k] by auto
      have "unat (of_nat k :: Ticket) = k"
        using k'(2) by (intro le_unat_uoi [of k ?N]) simp
      then have "(of_nat k :: Ticket) \<noteq> ?O" using k'(1) by auto
      then have "j \<noteq> i" using j dri by auto
      then show "\<exists>j. drawn (pc s' j) = Some (of_nat k)"
        using j by (auto simp: s' intro!: exI [of _ j])
    qed
  qed
qed

lemma tl_full_run:
  "tl_inv n s \<Longrightarrow> tl_full s \<Longrightarrow> n + length xs < 2 ^ 64 \<Longrightarrow> tl_run xs s = Some s' \<Longrightarrow>
   tl_full s'"
proof (induction xs arbitrary: n s)
  case Nil
  then show ?case by simp
next
  case (Cons x xs)
  from Cons.prems(4) obtain s1 where 1: "tl_next x s = Some s1" and 2: "tl_run xs s1 = Some s'"
    by (auto split: option.splits)
  have n: "Suc n < 2 ^ 64" using Cons.prems(3) by simp
  have i1: "tl_inv (Suc n) s1" by (rule tl_inv_step [OF Cons.prems(1) n 1])
  have f1: "tl_full s1" by (rule tl_full_step [OF Cons.prems(1,2) n 1])
  show ?case by (rule Cons.IH [OF i1 f1 _ 2]) (use Cons.prems(3) in simp)
qed

text \<open>
  When \<^verbatim>\<open>try_lock\<close> can succeed: in a state reached by fewer than \<open>2\<^sup>6\<^sup>4\<close>
  steps, the two counters are equal exactly when no thread holds the lock or
  waits in \<^verbatim>\<open>lock\<close> for it.
\<close>

lemma TicketLock_free_iff_counters_equal:
  assumes "length xs < 2 ^ 64" and "tl_run xs tl_init = Some s"
  shows "next_free_ticket (shared s) = owner_ticket (shared s) \<longleftrightarrow> (\<forall>i. drawn (pc s i) = None)"
proof -
  note I = tl_invD [OF tl_reachable_inv [OF assms]]
  have "tl_full tl_init" by (simp add: tl_full_def tl_init_def TicketLock_init_def)
  from tl_full_run [OF tl_init_inv this _ assms(2)] assms(1) have full: "tl_full s" by simp
  show ?thesis
  proof
    assume eq: "next_free_ticket (shared s) = owner_ticket (shared s)"
    show "\<forall>i. drawn (pc s i) = None"
    proof
      fix i show "drawn (pc s i) = None"
      proof (cases "drawn (pc s i)")
        case (Some t)
        then show ?thesis using I(3) [OF Some] I(4) [OF Some] eq by simp
      qed simp
    qed
  next
    assume none: "\<forall>i. drawn (pc s i) = None"
    have "\<not> unat (owner_ticket (shared s)) < unat (next_free_ticket (shared s))"
      using full none unfolding tl_full_def by (metis le_refl option.distinct(1))
    then show "next_free_ticket (shared s) = owner_ticket (shared s)"
      using I(1) by (simp add: word_unat_eq_iff)
  qed
qed

text \<open>
  Claim C5. \<^verbatim>\<open>TicketLock::try_lock\<close> in a state reached by fewer than \<open>2\<^sup>6\<^sup>4\<close>
  atomic steps of any threads, with the owner ticket \<open>c\<close> loaded before: its
  compare-and-swap succeeds exactly when the next free ticket equals \<open>c\<close>; on
  success the next free ticket grows by one, the owner ticket is as before and
  the thread holds the lock with ticket \<open>c\<close>; on failure both counters are as
  before. A success means that \<open>c\<close> is still the owner ticket and that no thread
  holds the lock or waits in \<^verbatim>\<open>lock\<close>. The converse needs \<open>c\<close> to be the owner
  ticket of the moment: then the exchange succeeds exactly when no thread holds
  the lock or waits for it. The last four parts are the exchange and the whole
  \<^verbatim>\<open>try_lock\<close> without a step in between, on any lock whatever.
\<close>

theorem TicketLock_try_lock_effect:
  assumes "length xs < 2 ^ 64" and "tl_run xs tl_init = Some s" and "pc s i = TryLoaded c"
  shows
    "fst (TicketLock_try_lock_cas c (shared s)) = (next_free_ticket (shared s) = c) \<and>
     tl_next (TryCas i) s
       = Some (if next_free_ticket (shared s) = c
               then \<lparr>shared = \<lparr>next_free_ticket = next_free_ticket (shared s) + 1,
                                owner_ticket = owner_ticket (shared s)\<rparr>,
                     pc = (pc s)(i := Holding c)\<rparr>
               else s\<lparr>pc := (pc s)(i := Idle)\<rparr>) \<and>
     (next_free_ticket (shared s) = c \<longrightarrow>
        owner_ticket (shared s) = c \<and> (\<forall>j. drawn (pc s j) = None)) \<and>
     (owner_ticket (shared s) = c \<longrightarrow>
        (next_free_ticket (shared s) = c \<longleftrightarrow> (\<forall>j. drawn (pc s j) = None))) \<and>
     fst (TicketLock_try_lock_cas c' l) = (next_free_ticket l = c') \<and>
     snd (TicketLock_try_lock_cas c' l)
       = (if next_free_ticket l = c'
          then \<lparr>next_free_ticket = next_free_ticket l + 1, owner_ticket = owner_ticket l\<rparr>
          else l) \<and>
     fst (TicketLock_try_lock l) = (next_free_ticket l = owner_ticket l) \<and>
     snd (TicketLock_try_lock l)
       = (if next_free_ticket l = owner_ticket l
          then \<lparr>next_free_ticket = next_free_ticket l + 1, owner_ticket = owner_ticket l\<rparr>
          else l)"
proof -
  note I = tl_invD [OF tl_reachable_inv [OF assms(1,2)]]
  note F = TicketLock_free_iff_counters_equal [OF assms(1,2)]
  have 1: "fst (TicketLock_try_lock_cas c (shared s)) = (next_free_ticket (shared s) = c)"
    by (simp add: TicketLock_try_lock_cas_def compare_exchange_strong_def)
  have 2: "tl_next (TryCas i) s
       = Some (if next_free_ticket (shared s) = c
               then \<lparr>shared = \<lparr>next_free_ticket = next_free_ticket (shared s) + 1,
                                owner_ticket = owner_ticket (shared s)\<rparr>,
                     pc = (pc s)(i := Holding c)\<rparr>
               else s\<lparr>pc := (pc s)(i := Idle)\<rparr>)"
    using assms(3) by (simp add: TicketLock_try_lock_cas_def compare_exchange_strong_def)
  have le: "unat c \<le> unat (owner_ticket (shared s))"
    using I(7) [OF assms(3)] .
  have 3: "owner_ticket (shared s) = c \<and> (\<forall>j. drawn (pc s j) = None)"
    if eq: "next_free_ticket (shared s) = c"
  proof -
    have "unat (owner_ticket (shared s)) = unat c" using le I(1) eq by simp
    then have o: "owner_ticket (shared s) = c" by (simp add: word_unat_eq_iff)
    with eq F show ?thesis by simp
  qed
  have 4: "next_free_ticket (shared s) = c \<longleftrightarrow> (\<forall>j. drawn (pc s j) = None)"
    if "owner_ticket (shared s) = c"
    using F that by simp
  have 5: "fst (TicketLock_try_lock_cas c' l) = (next_free_ticket l = c')"
    "snd (TicketLock_try_lock_cas c' l)
       = (if next_free_ticket l = c'
          then \<lparr>next_free_ticket = next_free_ticket l + 1, owner_ticket = owner_ticket l\<rparr>
          else l)"
    "fst (TicketLock_try_lock l) = (next_free_ticket l = owner_ticket l)"
    "snd (TicketLock_try_lock l)
       = (if next_free_ticket l = owner_ticket l
          then \<lparr>next_free_ticket = next_free_ticket l + 1, owner_ticket = owner_ticket l\<rparr>
          else l)"
    by (simp_all add: TicketLock_try_lock_def TicketLock_try_lock_load_def
        TicketLock_try_lock_cas_def compare_exchange_strong_def)
  show ?thesis using 1 2 3 4 5 by blast
qed

theorem TicketLock_try_lock_effect_witness:
  "map_option (tl_view [0, 1]) (tl_run [TryLoad 0] tl_init) = Some (0, 0, [TryLoaded 0, Idle]) \<and>
   map_option (tl_view [0, 1]) (tl_run [TryLoad 0, TryCas 0] tl_init)
     = Some (1, 0, [Holding 0, Idle]) \<and>
   map_option (tl_view [0, 1]) (tl_run [TryLoad 0, LockDraw 1] tl_init)
     = Some (1, 0, [TryLoaded 0, LockSpin 0]) \<and>
   map_option (tl_view [0, 1]) (tl_run [TryLoad 0, LockDraw 1, TryCas 0] tl_init)
     = Some (1, 0, [Idle, LockSpin 0]) \<and>
   fst (TicketLock_try_lock TicketLock_init) \<and>
   \<not> fst (TicketLock_try_lock \<lparr>next_free_ticket = 1, owner_ticket = 0\<rparr>)"
proof -
  let ?a = "[TryLoad 0]"
  let ?b = "[TryLoad 0, LockDraw 1]"
  note defs = tl_init_def TicketLock_init_def TicketLock_lock_draw_def
    TicketLock_lock_spins_def TicketLock_unlock_def TicketLock_try_lock_load_def
    TicketLock_try_lock_cas_def compare_exchange_strong_def fetch_add_def tl_view_def
  have va: "map_option (tl_view [0, 1]) (tl_run ?a tl_init) = Some (0, 0, [TryLoaded 0, Idle])"
    by (simp add: defs)
  have va': "map_option (tl_view [0, 1]) (tl_run [TryLoad 0, TryCas 0] tl_init)
     = Some (1, 0, [Holding 0, Idle])"
    by (simp add: defs)
  have vb: "map_option (tl_view [0, 1]) (tl_run ?b tl_init)
     = Some (1, 0, [TryLoaded 0, LockSpin 0])"
    by (simp add: defs)
  have vb': "map_option (tl_view [0, 1]) (tl_run [TryLoad 0, LockDraw 1, TryCas 0] tl_init)
     = Some (1, 0, [Idle, LockSpin 0])"
    by (simp add: defs)
  have la: "length ?a < 2 ^ 64" and lb: "length ?b < 2 ^ 64" by simp_all
  from va obtain sa where ha: "tl_run ?a tl_init = Some sa" and pa: "pc sa 0 = TryLoaded 0"
    by (auto simp: tl_view_def)
  from vb obtain sb where hb: "tl_run ?b tl_init = Some sb" and pb: "pc sb 0 = TryLoaded 0"
    by (auto simp: tl_view_def)
  note ta = TicketLock_try_lock_effect [OF la ha pa, of 0 TicketLock_init]
  note tb = TicketLock_try_lock_effect
    [OF lb hb pb, of 0 "\<lparr>next_free_ticket = 1, owner_ticket = 0\<rparr>"]
  have x: "fst (TicketLock_try_lock TicketLock_init)"
    using ta by (simp add: TicketLock_init_def)
  have y: "\<not> fst (TicketLock_try_lock \<lparr>next_free_ticket = 1, owner_ticket = 0\<rparr>)"
    using tb by simp
  from va va' vb vb' x y show ?thesis by blast
qed

text \<open>
  An execution against "succeeds if and only if the lock is unheld and no thread
  is queued": thread 0 loads the owner ticket 0 in \<^verbatim>\<open>try_lock\<close>; thread 1 takes
  the lock and releases it; now both counters are 1, no thread holds the lock or
  waits for it, and thread 0's exchange, which expects 0, fails.
\<close>

theorem TicketLock_try_lock_effect_counterexample:
  "map_option (tl_view [0, 1]) (tl_run [TryLoad 0, LockDraw 1, LockRead 1, Unlock 1] tl_init)
     = Some (1, 1, [TryLoaded 0, Idle]) \<and>
   drawn (TryLoaded 0) = None \<and> drawn Idle = None \<and>
   map_option (tl_view [0, 1])
     (tl_run [TryLoad 0, LockDraw 1, LockRead 1, Unlock 1, TryCas 0] tl_init)
     = Some (1, 1, [Idle, Idle]) \<and>
   TicketLock_try_lock_cas 0 \<lparr>next_free_ticket = 1, owner_ticket = 1\<rparr>
     = (False, \<lparr>next_free_ticket = 1, owner_ticket = 1\<rparr>)"
  by (simp add: tl_init_def TicketLock_init_def TicketLock_lock_draw_def
    TicketLock_lock_spins_def TicketLock_unlock_def TicketLock_try_lock_load_def
    TicketLock_try_lock_cas_def compare_exchange_strong_def fetch_add_def tl_view_def)

section \<open>Futex mutex\<close>













section \<open>Queue (MCS) spinlock\<close>

lemma mcs_invD:
  assumes "mcs_inv q s"
  shows "distinct q"
    and "tail s = (if q = [] then None else Some (last q))"
    and "\<And>g. g \<in> set q \<longleftrightarrow> enqueued (stage s g)"
    and "\<And>g. stage s g = AtExchange \<Longrightarrow> guard_next s g = None \<and> \<not> guard_is_owner s g"
    and "\<And>i. Suc i < length q \<Longrightarrow> link_ok s (q ! i) (q ! Suc i)"
    and "\<And>i. Suc i < length q \<Longrightarrow> waiting (stage s (q ! Suc i))"
    and "\<And>i. Suc i < length q \<Longrightarrow> \<not> guard_is_owner s (q ! Suc i)"
    and "q \<noteq> [] \<Longrightarrow> guard_next s (last q) = None"
    and "q \<noteq> [] \<Longrightarrow> \<not> linking (stage s (hd q))"
    and "\<And>g. stage s g = ReleaseSpin \<or> stage s g = AtHandoff \<Longrightarrow> 2 \<le> length q"
    and "\<And>g. stage s g = AtHandoff \<Longrightarrow> guard_next s g \<noteq> None"
  using assms unfolding mcs_inv_def by blast+

lemma mcs_invI:
  assumes "distinct q"
    and "tail s = (if q = [] then None else Some (last q))"
    and "\<And>g. g \<in> set q \<longleftrightarrow> enqueued (stage s g)"
    and "\<And>g. stage s g = AtExchange \<Longrightarrow> guard_next s g = None \<and> \<not> guard_is_owner s g"
    and "\<And>i. Suc i < length q \<Longrightarrow> link_ok s (q ! i) (q ! Suc i)"
    and "\<And>i. Suc i < length q \<Longrightarrow> waiting (stage s (q ! Suc i))"
    and "\<And>i. Suc i < length q \<Longrightarrow> \<not> guard_is_owner s (q ! Suc i)"
    and "q \<noteq> [] \<Longrightarrow> guard_next s (last q) = None"
    and "q \<noteq> [] \<Longrightarrow> \<not> linking (stage s (hd q))"
    and "\<And>g. stage s g = ReleaseSpin \<or> stage s g = AtHandoff \<Longrightarrow> 2 \<le> length q"
    and "\<And>g. stage s g = AtHandoff \<Longrightarrow> guard_next s g \<noteq> None"
  shows "mcs_inv q s"
  using assms unfolding mcs_inv_def by blast

text \<open>A guard of the queue that is not waiting is its head; so is one that owns the lock.\<close>

lemma mcs_inv_head:
  assumes "mcs_inv q s" "g \<in> set q" "\<not> waiting (stage s g) \<or> guard_is_owner s g"
  shows "q \<noteq> [] \<and> g = hd q"
proof -
  from assms(2) obtain i where i: "i < length q" "q ! i = g"
    by (auto simp: in_set_conv_nth)
  have "i = 0"
  proof (rule ccontr)
    assume "i \<noteq> 0"
    then obtain j where j: "i = Suc j" by (cases i) auto
    from mcs_invD(6,7) [OF assms(1), of j] i j assms(3) show False by auto
  qed
  then show ?thesis using i by (cases q) auto
qed

lemma mcs_init_inv: "mcs_inv [] QueueSpinLock_init"
  by (simp add: mcs_inv_def QueueSpinLock_init_def)

lemma mcs_inv_Construct:
  assumes inv: "mcs_inv q s" and st: "mcs_next (Construct g) s = Some s'"
  shows "mcs_inv q s'"
proof -
  note I = mcs_invD [OF inv]
  from st have g: "stage s g = NoGuard"
    and s': "s' = s\<lparr>guard_next := (guard_next s)(g := None),
                     guard_is_owner := (guard_is_owner s)(g := False),
                     stage := (stage s)(g := AtExchange)\<rparr>"
    by (auto split: mcs_pc.splits)
  have gq: "g \<notin> set q" using I(3) [of g] g by simp
  have ne: "q ! i \<noteq> g" if "i < length q" for i using gq that by auto
  show ?thesis
  proof (rule mcs_invI)
    show "distinct q" by (rule I(1))
    show "tail s' = (if q = [] then None else Some (last q))" using I(2) by (simp add: s')
    show "g' \<in> set q \<longleftrightarrow> enqueued (stage s' g')" for g'
      using I(3) [of g'] gq g by (auto simp: s')
    show "guard_next s' h = None \<and> \<not> guard_is_owner s' h" if "stage s' h = AtExchange" for h
      using that I(4) [of h] by (auto simp: s' split: if_splits)
    show "link_ok s' (q ! i) (q ! Suc i)" if "Suc i < length q" for i
      using I(5) [OF that] ne [of i] ne [of "Suc i"] that by (simp add: s' link_ok_def)
    show "waiting (stage s' (q ! Suc i))" if "Suc i < length q" for i
      using I(6) [OF that] ne [of "Suc i"] that by (simp add: s')
    show "\<not> guard_is_owner s' (q ! Suc i)" if "Suc i < length q" for i
      using I(7) [OF that] ne [of "Suc i"] that by (simp add: s')
    show "guard_next s' (last q) = None" if "q \<noteq> []"
      using I(8) [OF that] by (simp add: s')
    show "\<not> linking (stage s' (hd q))" if "q \<noteq> []"
      using I(9) [OF that] by (simp add: s')
    show "2 \<le> length q" if "stage s' h = ReleaseSpin \<or> stage s' h = AtHandoff" for h
      using that I(10) [of h] by (auto simp: s' split: if_splits)
    show "guard_next s' h \<noteq> None" if "stage s' h = AtHandoff" for h
      using that I(11) [of h] by (auto simp: s' split: if_splits)
  qed
qed

lemma mcs_inv_Exchange:
  assumes inv: "mcs_inv q s" and st: "mcs_next (Exchange g) s = Some s'"
  shows "mcs_inv (q @ [g]) s'"
proof -
  note I = mcs_invD [OF inv]
  from st have g: "stage s g = AtExchange"
    and s': "s' = s\<lparr>tail := Some g,
                     stage := (stage s)(g := (if q = [] then AtSetOwner else AtLink (last q)))\<rparr>"
    using I(2) by (auto simp: atomic_exchange_def split: mcs_pc.splits)
  have gq: "g \<notin> set q" using I(3) [of g] g by simp
  have ne: "q ! i \<noteq> g" if "i < length q" for i using gq that by auto
  note g0 = I(4) [OF g]
  show ?thesis
  proof (rule mcs_invI)
    show "distinct (q @ [g])" using I(1) gq by simp
    show "tail s' = (if q @ [g] = [] then None else Some (last (q @ [g])))" by (simp add: s')
    show "g' \<in> set (q @ [g]) \<longleftrightarrow> enqueued (stage s' g')" for g'
      using I(3) [of g'] by (simp add: s')
    show "guard_next s' h = None \<and> \<not> guard_is_owner s' h" if "stage s' h = AtExchange" for h
      using that I(4) [of h] by (auto simp: s' split: if_splits)
    show "link_ok s' ((q @ [g]) ! i) ((q @ [g]) ! Suc i)" if "Suc i < length (q @ [g])" for i
    proof (cases "Suc i < length q")
      case True
      then show ?thesis
        using I(5) [OF True] ne [of i] ne [of "Suc i"] by (simp add: s' link_ok_def nth_append)
    next
      case False
      then have i: "Suc i = length q" using that by simp
      then have "q \<noteq> []" by auto
      moreover have "q ! i = last q"
        using i last_conv_nth [OF \<open>q \<noteq> []\<close>] by (metis diff_Suc_1)
      ultimately show ?thesis
        using I(8) i by (simp add: s' link_ok_def nth_append)
    qed
    show "waiting (stage s' ((q @ [g]) ! Suc i))" if "Suc i < length (q @ [g])" for i
    proof (cases "Suc i < length q")
      case True
      then show ?thesis using I(6) [OF True] ne [of "Suc i"] by (simp add: s' nth_append)
    next
      case False
      then have i: "Suc i = length q" using that by simp
      then have "q \<noteq> []" by auto
      then show ?thesis using i by (simp add: s' nth_append)
    qed
    show "\<not> guard_is_owner s' ((q @ [g]) ! Suc i)" if "Suc i < length (q @ [g])" for i
    proof (cases "Suc i < length q")
      case True
      then show ?thesis using I(7) [OF True] by (simp add: s' nth_append)
    next
      case False
      then have i: "Suc i = length q" using that by simp
      then show ?thesis using g0 by (simp add: s' nth_append)
    qed
    show "guard_next s' (last (q @ [g])) = None" using g0 by (simp add: s')
    show "\<not> linking (stage s' (hd (q @ [g])))"
      using I(9) gq by (cases q) (auto simp: s')
    show "2 \<le> length (q @ [g])" if "stage s' h = ReleaseSpin \<or> stage s' h = AtHandoff" for h
      using that I(10) [of h] by (auto simp: s' split: if_splits)
    show "guard_next s' h \<noteq> None" if "stage s' h = AtHandoff" for h
      using that I(11) [of h] by (auto simp: s' split: if_splits)
  qed
qed

lemma mcs_inv_SetOwner:
  assumes inv: "mcs_inv q s" and st: "mcs_next (SetOwner g) s = Some s'"
  shows "mcs_inv q s'"
proof -
  note I = mcs_invD [OF inv]
  from st have g: "stage s g = AtSetOwner"
    and s': "s' = s\<lparr>guard_is_owner := (guard_is_owner s)(g := True),
                     stage := (stage s)(g := AcquireSpin)\<rparr>"
    by (auto split: mcs_pc.splits)
  have gq: "g \<in> set q" using I(3) [of g] g by simp
  have hd: "q \<noteq> []" "g = hd q" using mcs_inv_head [OF inv gq] g by simp_all
  have ne: "q ! Suc i \<noteq> g" if "Suc i < length q" for i
    using that I(1) hd nth_eq_iff_index_eq [of q "Suc i" 0] by (simp add: hd_conv_nth)
  show ?thesis
  proof (rule mcs_invI)
    show "distinct q" by (rule I(1))
    show "tail s' = (if q = [] then None else Some (last q))" using I(2) by (simp add: s')
    show "g' \<in> set q \<longleftrightarrow> enqueued (stage s' g')" for g'
      using I(3) [of g'] gq g by (auto simp: s')
    show "guard_next s' h = None \<and> \<not> guard_is_owner s' h" if "stage s' h = AtExchange" for h
      using that I(4) [of h] by (auto simp: s' split: if_splits)
    show "link_ok s' (q ! i) (q ! Suc i)" if "Suc i < length q" for i
      using I(5) [OF that] ne [OF that] by (simp add: s' link_ok_def)
    show "waiting (stage s' (q ! Suc i))" if "Suc i < length q" for i
      using I(6) [OF that] by (simp add: s')
    show "\<not> guard_is_owner s' (q ! Suc i)" if "Suc i < length q" for i
      using I(7) [OF that] ne [OF that] by (simp add: s')
    show "guard_next s' (last q) = None" if "q \<noteq> []"
      using I(8) [OF that] by (simp add: s')
    show "\<not> linking (stage s' (hd q))" if "q \<noteq> []"
      using hd by (simp add: s')
    show "2 \<le> length q" if "stage s' h = ReleaseSpin \<or> stage s' h = AtHandoff" for h
      using that I(10) [of h] by (auto simp: s' split: if_splits)
    show "guard_next s' h \<noteq> None" if "stage s' h = AtHandoff" for h
      using that I(11) [of h] by (auto simp: s' split: if_splits)
  qed
qed

lemma mcs_inv_Link:
  assumes inv: "mcs_inv q s" and st: "mcs_next (Link g) s = Some s'"
  shows "mcs_inv q s'"
proof -
  note I = mcs_invD [OF inv]
  from st obtain p where g: "stage s g = AtLink p"
    and s': "s' = s\<lparr>guard_next := (guard_next s)(p := Some g),
                     stage := (stage s)(g := AcquireSpin)\<rparr>"
    by (auto split: mcs_pc.splits)
  have gq: "g \<in> set q" using I(3) [of g] g by simp
  then obtain j where j: "j < length q" "q ! j = g" by (auto simp: in_set_conv_nth)
  have qne: "q \<noteq> []" using gq by auto
  have "j \<noteq> 0"
  proof
    assume "j = 0"
    then have "hd q = g" using j qne by (simp add: hd_conv_nth)
    then show False using I(9) [OF qne] g by simp
  qed
  then obtain k where k: "j = Suc k" by (cases j) auto
  have kq: "Suc k < length q" using j k by simp
  have p: "q ! k = p" and pn: "guard_next s p = None"
    using I(5) [OF kq] g j k by (auto simp: link_ok_def)
  have idx: "q ! a = q ! b \<longleftrightarrow> a = b" if "a < length q" "b < length q" for a b
    using nth_eq_iff_index_eq [OF I(1) that] .
  show ?thesis
  proof (rule mcs_invI)
    show "distinct q" by (rule I(1))
    show "tail s' = (if q = [] then None else Some (last q))" using I(2) by (simp add: s')
    show "g' \<in> set q \<longleftrightarrow> enqueued (stage s' g')" for g'
      using I(3) [of g'] gq g by (auto simp: s')
    show "guard_next s' h = None \<and> \<not> guard_is_owner s' h" if "stage s' h = AtExchange" for h
    proof -
      from that have h: "h \<noteq> g" "stage s h = AtExchange" by (auto simp: s' split: if_splits)
      have "h \<notin> set q" using I(3) [of h] h by simp
      then have "h \<noteq> p" using p kq by auto
      then show ?thesis using I(4) [OF h(2)] by (simp add: s')
    qed
    show "link_ok s' (q ! i) (q ! Suc i)" if "Suc i < length q" for i
    proof (cases "i = k")
      case True
      then show ?thesis using p j k by (simp add: s' link_ok_def)
    next
      case False
      then have 1: "q ! Suc i \<noteq> g" using idx [of "Suc i" j] that j k by simp
      have 2: "q ! i \<noteq> p" using idx [of i k] that kq False p by auto
      show ?thesis using I(5) [OF that] 1 2 by (simp add: s' link_ok_def)
    qed
    show "waiting (stage s' (q ! Suc i))" if "Suc i < length q" for i
      using I(6) [OF that] by (simp add: s')
    show "\<not> guard_is_owner s' (q ! Suc i)" if "Suc i < length q" for i
      using I(7) [OF that] by (simp add: s')
    show "guard_next s' (last q) = None" if "q \<noteq> []"
    proof -
      have "last q = q ! (length q - 1)" by (rule last_conv_nth [OF that])
      moreover have "q ! (length q - 1) \<noteq> q ! k"
        using idx [of "length q - 1" k] kq by simp
      ultimately show ?thesis using I(8) [OF that] p by (simp add: s')
    qed
    show "\<not> linking (stage s' (hd q))" if "q \<noteq> []"
      using I(9) [OF that] by (simp add: s')
    show "2 \<le> length q" if "stage s' h = ReleaseSpin \<or> stage s' h = AtHandoff" for h
      using that I(10) [of h] by (auto simp: s' split: if_splits)
    show "guard_next s' h \<noteq> None" if "stage s' h = AtHandoff" for h
      using that I(11) [of h] by (auto simp: s' split: if_splits)
  qed
qed

lemma mcs_inv_head_update:
  assumes inv: "mcs_inv q s" and gq: "q \<noteq> []" "g = hd q"
    and en: "enqueued c" and nl: "\<not> linking c"
    and rs: "c = ReleaseSpin \<or> c = AtHandoff \<Longrightarrow> 2 \<le> length q"
    and ho: "c = AtHandoff \<Longrightarrow> guard_next s g \<noteq> None"
  shows "mcs_inv q (s\<lparr>stage := (stage s)(g := c)\<rparr>)"
proof -
  note I = mcs_invD [OF inv]
  let ?s' = "s\<lparr>stage := (stage s)(g := c)\<rparr>"
  have gin: "g \<in> set q" using gq by simp
  have ne: "q ! Suc i \<noteq> g" if "Suc i < length q" for i
    using that I(1) gq nth_eq_iff_index_eq [of q "Suc i" 0] by (simp add: hd_conv_nth)
  show ?thesis
  proof (rule mcs_invI)
    show "distinct q" by (rule I(1))
    show "tail ?s' = (if q = [] then None else Some (last q))" using I(2) by simp
    show "g' \<in> set q \<longleftrightarrow> enqueued (stage ?s' g')" for g'
      using I(3) [of g'] gin en by auto
    show "guard_next ?s' h = None \<and> \<not> guard_is_owner ?s' h" if "stage ?s' h = AtExchange" for h
      using that I(4) [of h] en by (auto split: if_splits)
    show "link_ok ?s' (q ! i) (q ! Suc i)" if "Suc i < length q" for i
      using I(5) [OF that] ne [OF that] by (simp add: link_ok_def)
    show "waiting (stage ?s' (q ! Suc i))" if "Suc i < length q" for i
      using I(6) [OF that] ne [OF that] by simp
    show "\<not> guard_is_owner ?s' (q ! Suc i)" if "Suc i < length q" for i
      using I(7) [OF that] by simp
    show "guard_next ?s' (last q) = None" if "q \<noteq> []"
      using I(8) [OF that] by simp
    show "\<not> linking (stage ?s' (hd q))" if "q \<noteq> []"
      using gq nl by simp
    show "2 \<le> length q" if "stage ?s' h = ReleaseSpin \<or> stage ?s' h = AtHandoff" for h
      using that I(10) [of h] rs by (auto split: if_splits)
    show "guard_next ?s' h \<noteq> None" if "stage ?s' h = AtHandoff" for h
      using that I(11) [of h] ho by (auto split: if_splits)
  qed
qed

lemma mcs_inv_AcquireRead:
  assumes inv: "mcs_inv q s" and st: "mcs_next (AcquireRead g) s = Some s'"
  shows "mcs_inv q s'"
proof -
  note I = mcs_invD [OF inv]
  from st have g: "stage s g = AcquireSpin"
    and s': "s' = (if \<not> guard_is_owner s g then s else s\<lparr>stage := (stage s)(g := Critical)\<rparr>)"
    by (auto split: mcs_pc.splits)
  show ?thesis
  proof (cases "guard_is_owner s g")
    case False
    then show ?thesis using inv s' by simp
  next
    case True
    have gq: "g \<in> set q" using I(3) [of g] g by simp
    have hd: "q \<noteq> []" "g = hd q" using mcs_inv_head [OF inv gq] True by simp_all
    have "mcs_inv q (s\<lparr>stage := (stage s)(g := Critical)\<rparr>)"
      by (rule mcs_inv_head_update [OF inv hd]) simp_all
    then show ?thesis using s' True by simp
  qed
qed

lemma mcs_inv_ReleaseRead:
  assumes inv: "mcs_inv q s" and st: "mcs_next (ReleaseRead g) s = Some s'"
  shows "mcs_inv q s'"
proof -
  note I = mcs_invD [OF inv]
  from st have g: "stage s g = ReleaseSpin"
    and s': "s' = (if guard_next s g = None then s else s\<lparr>stage := (stage s)(g := AtHandoff)\<rparr>)"
    by (auto split: mcs_pc.splits)
  show ?thesis
  proof (cases "guard_next s g = None")
    case True
    then show ?thesis using inv s' by simp
  next
    case False
    have gq: "g \<in> set q" using I(3) [of g] g by simp
    have hd: "q \<noteq> []" "g = hd q" using mcs_inv_head [OF inv gq] g by simp_all
    have "mcs_inv q (s\<lparr>stage := (stage s)(g := AtHandoff)\<rparr>)"
      by (rule mcs_inv_head_update [OF inv hd]) (use False I(10) [of g] g in simp_all)
    then show ?thesis using s' False by simp
  qed
qed

lemma hd_eq_last_single: "distinct q \<Longrightarrow> q \<noteq> [] \<Longrightarrow> hd q = last q \<Longrightarrow> q = [hd q]"
  by (cases q) (auto split: if_splits)

lemma mcs_inv_ReleaseCas:
  assumes inv: "mcs_inv q s" and st: "mcs_next (ReleaseCas g) s = Some s'"
  shows "mcs_inv (if tail s = Some g then tl q else q) s'"
proof -
  note I = mcs_invD [OF inv]
  from st have g: "stage s g = Critical"
    and s': "s' = (if tail s = Some g
                   then s\<lparr>tail := None, stage := (stage s)(g := NoGuard)\<rparr>
                   else s\<lparr>stage := (stage s)(g := ReleaseSpin)\<rparr>)"
    by (auto simp: compare_exchange_strong_def split: mcs_pc.splits if_splits)
  have gq: "g \<in> set q" using I(3) [of g] g by simp
  have hd: "q \<noteq> []" "g = hd q" using mcs_inv_head [OF inv gq] g by simp_all
  show ?thesis
  proof (cases "tail s = Some g")
    case True
    then have "last q = g" using I(2) hd by simp
    then have q: "q = [g]" using hd_eq_last_single [OF I(1) hd(1)] hd(2) by simp
    have s'': "s' = s\<lparr>tail := None, stage := (stage s)(g := NoGuard)\<rparr>" using s' True by simp
    have other: "\<not> enqueued (stage s h)" if "h \<noteq> g" for h
      using I(3) [of h] q that by simp
    have "mcs_inv [] s'"
    proof (rule mcs_invI)
      show "g' \<in> set [] \<longleftrightarrow> enqueued (stage s' g')" for g'
        using other [of g'] by (simp add: s'')
      show "guard_next s' h = None \<and> \<not> guard_is_owner s' h" if "stage s' h = AtExchange" for h
        using that I(4) [of h] by (auto simp: s'' split: if_splits)
      show "2 \<le> length ([]::nat list)" if "stage s' h = ReleaseSpin \<or> stage s' h = AtHandoff" for h
        using that other [of h] by (auto simp: s'' split: if_splits)
      show "guard_next s' h \<noteq> None" if "stage s' h = AtHandoff" for h
        using that other [of h] by (auto simp: s'' split: if_splits)
    qed (simp_all add: s'')
    then show ?thesis using True q by simp
  next
    case False
    then have "last q \<noteq> g" using I(2) hd by simp
    then have len: "2 \<le> length q" using hd by (cases q; cases "tl q") (auto split: if_splits)
    have "mcs_inv q (s\<lparr>stage := (stage s)(g := ReleaseSpin)\<rparr>)"
      by (rule mcs_inv_head_update [OF inv hd]) (use len in simp_all)
    then show ?thesis using s' False by simp
  qed
qed

lemma mcs_handoff_target:
  assumes inv: "mcs_inv q s" and g: "stage s g = ReleaseSpin \<or> stage s g = AtHandoff"
    and n: "guard_next s g = Some n"
  shows "2 \<le> length q \<and> g = q ! 0 \<and> n = q ! 1 \<and> \<not> linking (stage s n)"
proof -
  note I = mcs_invD [OF inv]
  have gq: "g \<in> set q" using I(3) [of g] g by auto
  have hd: "q \<noteq> []" "g = hd q" using mcs_inv_head [OF inv gq] g by auto
  have len: "2 \<le> length q" by (rule I(10) [OF g])
  then have 1: "Suc 0 < length q" by simp
  have g0: "g = q ! 0" using hd by (simp add: hd_conv_nth)
  from I(5) [OF 1] n g0 have "n = q ! 1 \<and> \<not> linking (stage s (q ! 1))"
    by (auto simp: link_ok_def split: if_splits)
  then show ?thesis using len g0 by simp
qed

lemma mcs_inv_Handoff:
  assumes inv: "mcs_inv q s" and st: "mcs_next (Handoff g) s = Some s'"
  shows "mcs_inv (tl q) s'"
proof -
  note I = mcs_invD [OF inv]
  from st obtain n where g: "stage s g = AtHandoff" and n: "guard_next s g = Some n"
    and s': "s' = s\<lparr>guard_is_owner := (guard_is_owner s)(n := True),
                     stage := (stage s)(g := NoGuard)\<rparr>"
    by (auto split: mcs_pc.splits option.splits)
  have "2 \<le> length q \<and> g = q ! 0 \<and> n = q ! 1 \<and> \<not> linking (stage s n)"
    by (rule mcs_handoff_target [OF inv _ n]) (use g in simp)
  then have len: "2 \<le> length q" and g0: "g = q ! 0" and n1: "n = q ! 1"
    and nl: "\<not> linking (stage s n)" by blast+
  have idx: "q ! a = q ! b \<longleftrightarrow> a = b" if "a < length q" "b < length q" for a b
    using nth_eq_iff_index_eq [OF I(1) that] .
  have qne: "q \<noteq> []" "tl q \<noteq> []" using len by (cases q; cases "tl q"; simp)+
  have tlnth: "tl q ! i = q ! Suc i" if "i < length (tl q)" for i
    using that by (simp add: nth_tl)
  have gtl: "g \<notin> set (tl q)" using I(1) g0 qne by (cases q) auto
  have settl: "h \<in> set (tl q) \<longleftrightarrow> h \<in> set q \<and> h \<noteq> g" for h
    using I(1) g0 qne by (cases q) auto
  have nhead: "\<not> enqueued (stage s h) \<or> waiting (stage s h)" if "h \<noteq> g" for h
    using mcs_inv_head [OF inv, of h] I(3) [of h] that g0 qne by (auto simp: hd_conv_nth)
  show ?thesis
  proof (rule mcs_invI)
    show "distinct (tl q)" using I(1) by (simp add: distinct_tl)
    show "tail s' = (if tl q = [] then None else Some (last (tl q)))"
      using I(2) qne by (simp add: s' last_tl)
    show "g' \<in> set (tl q) \<longleftrightarrow> enqueued (stage s' g')" for g'
      using I(3) [of g'] settl [of g'] by (auto simp: s')
    show "guard_next s' h = None \<and> \<not> guard_is_owner s' h" if "stage s' h = AtExchange" for h
    proof -
      from that have h: "h \<noteq> g" "stage s h = AtExchange" by (auto simp: s' split: if_splits)
      have "h \<notin> set q" using I(3) [of h] h by simp
      then have "h \<noteq> n" using n1 len by auto
      then show ?thesis using I(4) [OF h(2)] by (simp add: s')
    qed
    show "link_ok s' (tl q ! i) (tl q ! Suc i)" if "Suc i < length (tl q)" for i
    proof -
      have 1: "Suc (Suc i) < length q" using that by simp
      have 2: "q ! Suc (Suc i) \<noteq> g" using idx [of "Suc (Suc i)" 0] 1 g0 qne by simp
      show ?thesis
        using I(5) [OF 1] 2 that by (simp add: s' link_ok_def nth_tl)
    qed
    show "waiting (stage s' (tl q ! Suc i))" if "Suc i < length (tl q)" for i
    proof -
      have 1: "Suc (Suc i) < length q" using that by simp
      have 2: "q ! Suc (Suc i) \<noteq> g" using idx [of "Suc (Suc i)" 0] 1 g0 qne by simp
      show ?thesis using I(6) [OF 1] 2 that by (simp add: s' nth_tl)
    qed
    show "\<not> guard_is_owner s' (tl q ! Suc i)" if "Suc i < length (tl q)" for i
    proof -
      have 1: "Suc (Suc i) < length q" using that by simp
      have 2: "q ! Suc (Suc i) \<noteq> n" using idx [of "Suc (Suc i)" 1] 1 n1 len by simp
      show ?thesis using I(7) [OF 1] 2 that by (simp add: s' nth_tl)
    qed
    show "guard_next s' (last (tl q)) = None"
      using I(8) [OF qne(1)] qne by (simp add: s' last_tl)
    show "\<not> linking (stage s' (hd (tl q)))"
    proof -
      have "hd (tl q) = n" using n1 qne len by (simp add: hd_conv_nth nth_tl)
      moreover have "n \<noteq> g" using idx [of 1 0] n1 g0 len qne by simp
      ultimately show ?thesis using nl by (simp add: s')
    qed
    show "2 \<le> length (tl q)" if "stage s' h = ReleaseSpin \<or> stage s' h = AtHandoff" for h
    proof -
      from that have h: "h \<noteq> g" "stage s h = ReleaseSpin \<or> stage s h = AtHandoff"
        by (auto simp: s' split: if_splits)
      then show ?thesis using nhead [OF h(1)] by auto
    qed
    show "guard_next s' h \<noteq> None" if "stage s' h = AtHandoff" for h
      using that I(11) [of h] by (auto simp: s' split: if_splits)
  qed
qed

lemma mcs_inv_step:
  assumes "mcs_inv q s" "mcs_next x s = Some s'"
  shows "mcs_inv (mcs_queue_step x s q) s'"
proof (cases x)
  case (Construct g)
  then show ?thesis using mcs_inv_Construct assms by (simp add: mcs_queue_step_def)
next
  case (Exchange g)
  then show ?thesis using mcs_inv_Exchange assms by (simp add: mcs_queue_step_def)
next
  case (SetOwner g)
  then show ?thesis using mcs_inv_SetOwner assms by (simp add: mcs_queue_step_def)
next
  case (Link g)
  then show ?thesis using mcs_inv_Link assms by (simp add: mcs_queue_step_def)
next
  case (AcquireRead g)
  then show ?thesis using mcs_inv_AcquireRead assms by (simp add: mcs_queue_step_def)
next
  case (ReleaseCas g)
  then show ?thesis
    using mcs_inv_ReleaseCas [of q s g s'] assms by (simp add: mcs_queue_step_def)
next
  case (ReleaseRead g)
  then show ?thesis using mcs_inv_ReleaseRead assms by (simp add: mcs_queue_step_def)
next
  case (Handoff g)
  then show ?thesis using mcs_inv_Handoff assms by (simp add: mcs_queue_step_def)
qed

lemma map_filter_append:
  "List.map_filter f (xs @ ys) = List.map_filter f xs @ List.map_filter f ys"
  by (simp add: List.map_filter_def)

lemma enqueued_after_snoc:
  "enqueued_after g (xs @ [x]) =
     (if x = Exchange g then []
      else enqueued_after g xs @ (case exchanger x of None \<Rightarrow> [] | Some h \<Rightarrow> [h]))"
  by (simp add: enqueued_after_def map_filter_append split: option.splits)

lemma enqueued_after_snoc_other:
  "exchanger x = None \<Longrightarrow> enqueued_after g (xs @ [x]) = enqueued_after g xs"
  by (auto simp: enqueued_after_snoc)

lemma tracks_Exchange:
  assumes "tracks q xs" "g \<notin> set q"
  shows "tracks (q @ [g]) (xs @ [Exchange g])"
  unfolding tracks_def
proof
  fix h assume h: "h \<in> set (q @ [g])"
  show "enqueued_after h (xs @ [Exchange g]) = tl (dropWhile (\<lambda>k. k \<noteq> h) (q @ [g]))"
  proof (cases "h = g")
    case True
    have "dropWhile (\<lambda>k. k \<noteq> g) (q @ [g]) = [g]"
      using assms(2) by (induction q) auto
    then show ?thesis using True by (simp add: enqueued_after_snoc)
  next
    case False
    then have hq: "h \<in> set q" using h by simp
    then have ne: "dropWhile (\<lambda>k. k \<noteq> h) q \<noteq> []" by simp
    have "dropWhile (\<lambda>k. k \<noteq> h) (q @ [g]) = dropWhile (\<lambda>k. k \<noteq> h) q @ [g]"
      using hq by (induction q) auto
    then show ?thesis
      using assms(1) hq False ne by (simp add: tracks_def enqueued_after_snoc)
  qed
qed

lemma tracks_tl:
  assumes "tracks q xs" "distinct q" "exchanger x = None"
  shows "tracks (tl q) (xs @ [x])"
  unfolding tracks_def
proof
  fix h assume h: "h \<in> set (tl q)"
  then obtain a r where q: "q = a # r" by (cases q) auto
  then have "h \<noteq> a" "h \<in> set q" using h assms(2) by auto
  then show "enqueued_after h (xs @ [x]) = tl (dropWhile (\<lambda>k. k \<noteq> h) (tl q))"
    using assms(1,3) q by (simp add: tracks_def enqueued_after_snoc_other)
qed

lemma tracks_same:
  assumes "tracks q xs" "exchanger x = None"
  shows "tracks q (xs @ [x])"
  using assms by (simp add: tracks_def enqueued_after_snoc_other)

lemma tracks_step:
  assumes "mcs_inv q s" "tracks q xs" "mcs_next x s = Some s'"
  shows "tracks (mcs_queue_step x s q) (xs @ [x])"
proof (cases x)
  case (Exchange g)
  have "stage s g = AtExchange" using assms(3) Exchange by (auto split: mcs_pc.splits)
  then have "g \<notin> set q" using mcs_invD(3) [OF assms(1), of g] by simp
  then show ?thesis using tracks_Exchange [OF assms(2)] Exchange by (simp add: mcs_queue_step_def)
next
  case (ReleaseCas g)
  then show ?thesis
    using tracks_tl [OF assms(2) mcs_invD(1) [OF assms(1)], of x] tracks_same [OF assms(2), of x]
    by (simp add: mcs_queue_step_def)
next
  case (Handoff g)
  then show ?thesis
    using tracks_tl [OF assms(2) mcs_invD(1) [OF assms(1)], of x]
    by (simp add: mcs_queue_step_def)
qed (use tracks_same [OF assms(2), of x] in \<open>simp_all add: mcs_queue_step_def\<close>)

lemma mcs_run_snoc:
  "mcs_run (xs @ [x]) s = (case mcs_run xs s of None \<Rightarrow> None | Some s' \<Rightarrow> mcs_next x s')"
  by (induction xs arbitrary: s) (auto split: option.splits)

lemma mcs_reachable:
  "mcs_run xs QueueSpinLock_init = Some s \<Longrightarrow> \<exists>q. mcs_inv q s \<and> tracks q xs"
proof (induction xs arbitrary: s rule: rev_induct)
  case Nil
  then show ?case using mcs_init_inv by (auto simp: tracks_def)
next
  case (snoc x xs)
  from snoc.prems obtain s0 where 0: "mcs_run xs QueueSpinLock_init = Some s0"
    and 1: "mcs_next x s0 = Some s"
    by (auto simp: mcs_run_snoc split: option.splits)
  from snoc.IH [OF 0] obtain q where q: "mcs_inv q s0" "tracks q xs" by blast
  show ?case using mcs_inv_step [OF q(1) 1] tracks_step [OF q 1] by blast
qed

lemma mcs_critical_tail:
  assumes run: "mcs_run xs QueueSpinLock_init = Some s" and g: "stage s g = Critical"
  shows "tail s = Some g \<longleftrightarrow> enqueued_after g xs = []"
proof -
  from mcs_reachable [OF run] obtain q where inv: "mcs_inv q s" and tr: "tracks q xs" by blast
  note I = mcs_invD [OF inv]
  have gq: "g \<in> set q" using I(3) [of g] g by simp
  have hd: "q \<noteq> []" "g = hd q" using mcs_inv_head [OF inv gq] g by simp_all
  then obtain r where q: "q = g # r" by (cases q) auto
  have ea: "enqueued_after g xs = r" using tr gq q by (simp add: tracks_def)
  have "tail s = Some g \<longleftrightarrow> last q = g" using I(2) hd by simp
  also have "\<dots> \<longleftrightarrow> r = []" using I(1) q by auto
  finally show ?thesis using ea by simp
qed

lemma mcs_release_successor:
  assumes run: "mcs_run xs QueueSpinLock_init = Some s" and g: "stage s g = ReleaseSpin"
  shows "enqueued_after g xs \<noteq> []"
    and "guard_next s g = Some n \<Longrightarrow> n = hd (enqueued_after g xs)"
proof -
  from mcs_reachable [OF run] obtain q where inv: "mcs_inv q s" and tr: "tracks q xs" by blast
  note I = mcs_invD [OF inv]
  have gq: "g \<in> set q" using I(3) [of g] g by simp
  have hd: "q \<noteq> []" "g = hd q" using mcs_inv_head [OF inv gq] g by simp_all
  then obtain r where q: "q = g # r" by (cases q) auto
  have ea: "enqueued_after g xs = r" using tr gq q by (simp add: tracks_def)
  have "2 \<le> length q" using I(10) [of g] g by simp
  then have r: "r \<noteq> []" using q by auto
  then show "enqueued_after g xs \<noteq> []" using ea by simp
  show "n = hd (enqueued_after g xs)" if "guard_next s g = Some n"
  proof -
    have "n = q ! 1" using mcs_handoff_target [OF inv _ that] g by simp
    then show ?thesis using ea q r by (simp add: hd_conv_nth)
  qed
qed

text \<open>At most one guard is past \<^verbatim>\<open>Acquire\<close> and before its release.\<close>

lemma QueueSpinLock_mutual_exclusion:
  assumes "mcs_run xs QueueSpinLock_init = Some s"
    and "stage s g = Critical" and "stage s h = Critical"
  shows "g = h"
proof -
  from mcs_reachable [OF assms(1)] obtain q where inv: "mcs_inv q s" by blast
  have "g \<in> set q" "h \<in> set q"
    using mcs_invD(3) [OF inv, of g] mcs_invD(3) [OF inv, of h] assms(2,3) by simp_all
  then have "g = hd q" "h = hd q"
    using mcs_inv_head [OF inv, of g] mcs_inv_head [OF inv, of h] assms(2,3) by simp_all
  then show ?thesis by simp
qed

text \<open>
  Claim C9. If the exchange of \<^verbatim>\<open>Enqueue\<close> finds the tail null, the guard's own
  thread sets its \<^verbatim>\<open>is_owner_\<close> and \<^verbatim>\<open>Acquire\<close> returns at its first read, by
  steps of that thread alone. In every reachable state, the compare-and-swap of
  a releasing guard succeeds exactly when no guard has exchanged the tail after
  it; when it fails, a guard was enqueued after it, the releaser's read of its
  \<^verbatim>\<open>next_\<close> changes nothing while the link is null, and once the link is set it is
  the guard enqueued right after the releaser, whose \<^verbatim>\<open>is_owner_\<close> the releaser
  sets before it leaves.
\<close>

theorem QueueSpinLock_enqueue_release:
  assumes "mcs_run xs QueueSpinLock_init = Some s"
  shows "(stage s g = AtExchange \<and> tail s = None \<longrightarrow>
            mcs_run [Exchange g, SetOwner g, AcquireRead g] s
              = Some (s\<lparr>tail := Some g,
                        guard_is_owner := (guard_is_owner s)(g := True),
                        stage := (stage s)(g := Critical)\<rparr>)) \<and>
         (stage s g = Critical \<longrightarrow>
            (fst (compare_exchange_strong (Some g) None (tail s)) \<longleftrightarrow> enqueued_after g xs = []) \<and>
            mcs_next (ReleaseCas g) s
              = Some (if enqueued_after g xs = []
                      then s\<lparr>tail := None, stage := (stage s)(g := NoGuard)\<rparr>
                      else s\<lparr>stage := (stage s)(g := ReleaseSpin)\<rparr>)) \<and>
         (stage s g = ReleaseSpin \<longrightarrow>
            enqueued_after g xs \<noteq> [] \<and>
            (guard_next s g = None \<longrightarrow> mcs_next (ReleaseRead g) s = Some s) \<and>
            (guard_next s g \<noteq> None \<longrightarrow>
               guard_next s g = Some (hd (enqueued_after g xs)) \<and>
               mcs_run [ReleaseRead g, Handoff g] s
                 = Some (s\<lparr>guard_is_owner :=
                             (guard_is_owner s)(hd (enqueued_after g xs) := True),
                           stage := (stage s)(g := NoGuard)\<rparr>)))"
proof -
  have a: "mcs_run [Exchange g, SetOwner g, AcquireRead g] s
              = Some (s\<lparr>tail := Some g,
                        guard_is_owner := (guard_is_owner s)(g := True),
                        stage := (stage s)(g := Critical)\<rparr>)"
    if "stage s g = AtExchange" "tail s = None"
    using that by (simp add: atomic_exchange_def)
  have b1: "fst (compare_exchange_strong (Some g) None (tail s)) \<longleftrightarrow> enqueued_after g xs = []"
    if "stage s g = Critical"
    using mcs_critical_tail [OF assms that] by (simp add: compare_exchange_strong_def)
  have b2: "mcs_next (ReleaseCas g) s
              = Some (if enqueued_after g xs = []
                      then s\<lparr>tail := None, stage := (stage s)(g := NoGuard)\<rparr>
                      else s\<lparr>stage := (stage s)(g := ReleaseSpin)\<rparr>)"
    if "stage s g = Critical"
    using mcs_critical_tail [OF assms that] that by (simp add: compare_exchange_strong_def)
  have c1: "enqueued_after g xs \<noteq> []" if "stage s g = ReleaseSpin"
    by (rule mcs_release_successor(1) [OF assms that])
  have c2: "mcs_next (ReleaseRead g) s = Some s"
    if "stage s g = ReleaseSpin" "guard_next s g = None"
    using that by simp
  have c3: "guard_next s g = Some (hd (enqueued_after g xs)) \<and>
            mcs_run [ReleaseRead g, Handoff g] s
              = Some (s\<lparr>guard_is_owner := (guard_is_owner s)(hd (enqueued_after g xs) := True),
                        stage := (stage s)(g := NoGuard)\<rparr>)"
    if "stage s g = ReleaseSpin" "guard_next s g \<noteq> None"
  proof -
    from that(2) obtain n where n: "guard_next s g = Some n" by auto
    have "n = hd (enqueued_after g xs)" by (rule mcs_release_successor(2) [OF assms that(1) n])
    then show ?thesis using that(1) n by simp
  qed
  show ?thesis using a b1 b2 c1 c2 c3 by blast
qed

theorem QueueSpinLock_enqueue_release_witness:
  "map_option (mcs_view [0])
     (mcs_run [Construct 0, Exchange 0, SetOwner 0, AcquireRead 0] QueueSpinLock_init)
     = Some (Some 0, [(None, True, Critical)]) \<and>
   enqueued_after 0 [Construct 0, Exchange 0, SetOwner 0, AcquireRead 0] = [] \<and>
   map_option (mcs_view [0])
     (mcs_run [Construct 0, Exchange 0, SetOwner 0, AcquireRead 0, ReleaseCas 0]
        QueueSpinLock_init)
     = Some (None, [(None, True, NoGuard)]) \<and>
   enqueued_after 0 [Construct 0, Exchange 0, SetOwner 0, AcquireRead 0, Construct 1, Exchange 1]
     = [1] \<and>
   map_option (mcs_view [0, 1])
     (mcs_run [Construct 0, Exchange 0, SetOwner 0, AcquireRead 0, Construct 1, Exchange 1,
               ReleaseCas 0] QueueSpinLock_init)
     = Some (Some 1, [(None, True, ReleaseSpin), (None, False, AtLink 0)]) \<and>
   map_option (mcs_view [0, 1])
     (mcs_run [Construct 0, Exchange 0, SetOwner 0, AcquireRead 0, Construct 1, Exchange 1,
               ReleaseCas 0, ReleaseRead 0] QueueSpinLock_init)
     = Some (Some 1, [(None, True, ReleaseSpin), (None, False, AtLink 0)]) \<and>
   map_option (mcs_view [0, 1])
     (mcs_run [Construct 0, Exchange 0, SetOwner 0, AcquireRead 0, Construct 1, Exchange 1,
               ReleaseCas 0, Link 1, ReleaseRead 0, Handoff 0] QueueSpinLock_init)
     = Some (Some 1, [(Some 1, True, NoGuard), (None, True, AcquireSpin)])"
proof -
  let ?xs1 = "[Construct 0]"
  let ?xs0 = "[Construct 0, Exchange 0, SetOwner 0, AcquireRead 0]"
  let ?xs2 = "[Construct 0, Exchange 0, SetOwner 0, AcquireRead 0, Construct 1, Exchange 1]"
  let ?xs4 = "[Construct 0, Exchange 0, SetOwner 0, AcquireRead 0, Construct 1, Exchange 1,
               ReleaseCas 0]"
  let ?xs3 = "[Construct 0, Exchange 0, SetOwner 0, AcquireRead 0, Construct 1, Exchange 1,
               ReleaseCas 0, Link 1]"
  have v1: "map_option (mcs_view [0]) (mcs_run ?xs1 QueueSpinLock_init)
            = Some (None, [(None, False, AtExchange)])"
    by (simp add: QueueSpinLock_init_def mcs_view_def)
  have v2: "map_option (mcs_view [0, 1]) (mcs_run ?xs2 QueueSpinLock_init)
            = Some (Some 1, [(None, True, Critical), (None, False, AtLink 0)])"
    by (simp add: QueueSpinLock_init_def mcs_view_def atomic_exchange_def)
  have v3: "map_option (mcs_view [0, 1]) (mcs_run ?xs3 QueueSpinLock_init)
            = Some (Some 1, [(Some 1, True, ReleaseSpin), (None, False, AcquireSpin)])"
    by (simp add: QueueSpinLock_init_def mcs_view_def atomic_exchange_def
        compare_exchange_strong_def)
  have c1: "map_option (mcs_view [0]) (mcs_run ?xs0 QueueSpinLock_init)
     = Some (Some 0, [(None, True, Critical)])"
    by (simp add: QueueSpinLock_init_def mcs_view_def atomic_exchange_def)
  have c0: "enqueued_after 0 ?xs0 = []"
    by (simp add: enqueued_after_def List.map_filter_def)
  have c0': "map_option (mcs_view [0])
     (mcs_run [Construct 0, Exchange 0, SetOwner 0, AcquireRead 0, ReleaseCas 0]
        QueueSpinLock_init)
     = Some (None, [(None, True, NoGuard)])"
    by (simp add: QueueSpinLock_init_def mcs_view_def atomic_exchange_def
        compare_exchange_strong_def)
  have c2: "enqueued_after 0 ?xs2 = [1]"
    by (simp add: enqueued_after_def List.map_filter_def)
  have c3: "map_option (mcs_view [0, 1]) (mcs_run ?xs4 QueueSpinLock_init)
     = Some (Some 1, [(None, True, ReleaseSpin), (None, False, AtLink 0)])"
    by (simp add: QueueSpinLock_init_def mcs_view_def atomic_exchange_def
        compare_exchange_strong_def)
  have c3': "map_option (mcs_view [0, 1])
     (mcs_run [Construct 0, Exchange 0, SetOwner 0, AcquireRead 0, Construct 1, Exchange 1,
               ReleaseCas 0, ReleaseRead 0] QueueSpinLock_init)
     = Some (Some 1, [(None, True, ReleaseSpin), (None, False, AtLink 0)])"
    by (simp add: QueueSpinLock_init_def mcs_view_def atomic_exchange_def
        compare_exchange_strong_def)
  have c4: "map_option (mcs_view [0, 1])
     (mcs_run [Construct 0, Exchange 0, SetOwner 0, AcquireRead 0, Construct 1, Exchange 1,
               ReleaseCas 0, Link 1, ReleaseRead 0, Handoff 0] QueueSpinLock_init)
     = Some (Some 1, [(Some 1, True, NoGuard), (None, True, AcquireSpin)])"
    by (simp add: QueueSpinLock_init_def mcs_view_def atomic_exchange_def
        compare_exchange_strong_def)
  from v1 obtain s1 where h1: "mcs_run ?xs1 QueueSpinLock_init = Some s1"
    and s1: "stage s1 0 = AtExchange \<and> tail s1 = None"
    by (auto simp: mcs_view_def)
  from c1 obtain s0 where h0: "mcs_run ?xs0 QueueSpinLock_init = Some s0"
    and s0: "stage s0 0 = Critical"
    by (auto simp: mcs_view_def)
  from v2 obtain s2 where h2: "mcs_run ?xs2 QueueSpinLock_init = Some s2"
    and s2: "stage s2 0 = Critical"
    by (auto simp: mcs_view_def)
  from c3 obtain s4 where h4: "mcs_run ?xs4 QueueSpinLock_init = Some s4"
    and s4: "stage s4 0 = ReleaseSpin" "guard_next s4 0 = None"
    by (auto simp: mcs_view_def)
  from v3 obtain s3 where h3: "mcs_run ?xs3 QueueSpinLock_init = Some s3"
    and s3: "stage s3 0 = ReleaseSpin" "guard_next s3 0 \<noteq> None"
    by (auto simp: mcs_view_def)
  note t1 = QueueSpinLock_enqueue_release [OF h1, of 0]
  note t0 = QueueSpinLock_enqueue_release [OF h0, of 0]
  note t2 = QueueSpinLock_enqueue_release [OF h2, of 0]
  note t4 = QueueSpinLock_enqueue_release [OF h4, of 0]
  note t3 = QueueSpinLock_enqueue_release [OF h3, of 0]
  from t1 t0 t2 t4 t3 s1 s0 s2 s4 s3 c1 c0 c0' c2 c3 c3' c4 show ?thesis by blast
qed

end
